theory Spec2Isabelle
  imports Complex_Main "HOL-Library.Multiset" "HOL-Library.List_Lexorder" "HOL-Library.Char_ord"
begin

section \<open>The data-loading core of diffusion-pipe (utils/dataset.py)\<close>

text \<open>
  A shallow embedding of \<^verbatim>\<open>src/utils/dataset.py\<close>. Python objects that are mutated
  become records that are passed in and returned; every \<^verbatim>\<open>raise\<close> is a value of
  \<open>py_error\<close>; the logger is a list of log events returned next to the result.
  Libraries the file calls but does not define (the \<^verbatim>\<open>random\<close> module, the
  \<^verbatim>\<open>datasets\<close> hasher, PIL, the model) are parameters of the definitions.
\<close>

subsection \<open>Errors and log events\<close>

datatype py_error =
    RuntimeError
  | ZeroDivisionError
  | IndexError
  | StopIteration
  | AttributeError
  | ValueError
  | FileNotFoundError
  | KeyError
  | AssertionError

text \<open>
  The three \<^verbatim>\<open>logger.warning\<close> calls of the file, each with the value its f-string
  interpolates.
\<close>

datatype log_event =
    WarnBucketDropped "nat \<times> nat"
  | WarnNoCaption string
  | WarnCannotOpen string
  | InfoCacheHit
  | InfoCacheMiss

subsection \<open>The random module\<close>

text \<open>
  The module-level generator of Python's \<^verbatim>\<open>random\<close>: \<open>'g\<close> is its state (what
  \<^verbatim>\<open>getstate\<close> returns and \<^verbatim>\<open>setstate\<close> installs). \<open>seed_state a\<close> is the state
  after \<^verbatim>\<open>random.seed(a)\<close>; \<open>shuffle_perm g n\<close> is what \<^verbatim>\<open>random.shuffle\<close>
  does to a list of length \<open>n\<close> from state \<open>g\<close>: the list of source indices (position
  \<open>k\<close> of the result holds the element that was at index \<open>p ! k\<close>) and the state it
  leaves. The Fisher-Yates loop of the library reads the list's length and the generator
  only, never the elements.
\<close>

record 'g random_module =
  seed_state :: "int \<Rightarrow> 'g"
  shuffle_perm :: "'g \<Rightarrow> nat \<Rightarrow> nat list \<times> 'g"

text \<open>
  The argument of \<^verbatim>\<open>random.seed\<close>: an integer, or \<^verbatim>\<open>None\<close>, in which case the
  library seeds from the operating system's entropy; \<open>SeedNone e\<close> is a call with
  \<^verbatim>\<open>None\<close> at which the operating system handed out \<open>e\<close>.
\<close>

datatype seed_arg = SeedInt int | SeedNone int

definition random_seed :: "'g random_module \<Rightarrow> seed_arg \<Rightarrow> 'g" where
  "random_seed R a = (case a of SeedInt s \<Rightarrow> seed_state R s | SeedNone e \<Rightarrow> seed_state R e)"

definition random_shuffle :: "'g random_module \<Rightarrow> 'a list \<Rightarrow> 'g \<Rightarrow> 'a list \<times> 'g" where
  "random_shuffle R l g =
     (case shuffle_perm R g (length l) of (p, g') \<Rightarrow> (map (\<lambda>i. l ! i) p, g'))"

text \<open>
  \<^verbatim>\<open>
  def shuffle_with_seed(l, seed=None):
      rng_state = random.getstate()
      random.seed(seed)
      random.shuffle(l)
      random.setstate(rng_state)
  \<close>
  The list is shuffled in place: the model returns it with the generator's final state.
\<close>

definition shuffle_with_seed ::
  "'g random_module \<Rightarrow> 'a list \<Rightarrow> seed_arg \<Rightarrow> 'g \<Rightarrow> 'a list \<times> 'g" where
  "shuffle_with_seed R l seed g =
     (let rng_state = g;
          g1 = random_seed R seed;
          (l', g2) = random_shuffle R l g1
      in (l', rng_state))"

text \<open>
  A generator is well behaved when every shuffle is a permutation of the indices.
\<close>

definition permuting :: "'g random_module \<Rightarrow> bool" where
  "permuting R = (\<forall>g n. mset (fst (shuffle_perm R g n)) = mset [0..<n])"

text \<open>
  A small concrete generator for evaluating the definitions: the state is a counter,
  seeding installs the seed's magnitude, a shuffle rotates by the counter and steps it.
\<close>

definition rot_random :: "nat random_module" where
  "rot_random = \<lparr> seed_state = (\<lambda>a. nat \<bar>a\<bar>),
                   shuffle_perm = (\<lambda>g n. (rotate (Suc g) [0..<n], Suc g)) \<rparr>"

subsection \<open>Strings and sequencing helpers\<close>

text \<open>
  \<^verbatim>\<open>str.strip()\<close>, \<^verbatim>\<open>str.split(',')\<close> and \<^verbatim>\<open>', '.join\<close> on byte strings; the
  whitespace of \<^verbatim>\<open>strip\<close> is the ASCII part of Python's.
\<close>

definition is_space :: "char \<Rightarrow> bool" where
  "is_space c = (c \<in> set [CHR '' '', CHR 0x09, CHR 0x0A, CHR 0x0B, CHR 0x0C, CHR 0x0D,
                            CHR 0x1C, CHR 0x1D, CHR 0x1E, CHR 0x1F])"

definition strip :: "string \<Rightarrow> string" where
  "strip s = rev (dropWhile is_space (rev (dropWhile is_space s)))"

fun split_on :: "char \<Rightarrow> string \<Rightarrow> string list" where
  "split_on c [] = [[]]"
| "split_on c (x # xs) =
     (if x = c then [] # split_on c xs
      else (case split_on c xs of [] \<Rightarrow> [[x]] | t # ts \<Rightarrow> (x # t) # ts))"

fun join :: "string \<Rightarrow> string list \<Rightarrow> string" where
  "join sep [] = []"
| "join sep [x] = x"
| "join sep (x # y # ys) = x @ sep @ join sep (y # ys)"

definition digit_char :: "nat \<Rightarrow> char" where
  "digit_char d = char_of (of_char CHR ''0'' + d)"

function str_nat :: "nat \<Rightarrow> string" where
  "str_nat n = (if n < 10 then [digit_char n] else str_nat (n div 10) @ [digit_char (n mod 10)])"
  by pat_completeness auto
termination
  by (relation "measure (\<lambda>n. n)") auto

declare str_nat.simps [simp del]

text \<open>A loop whose body may raise: the first error ends it.\<close>

fun mapM :: "('a \<Rightarrow> 'e + 'b) \<Rightarrow> 'a list \<Rightarrow> 'e + 'b list" where
  "mapM f [] = Inr []"
| "mapM f (x # xs) =
     (case f x of Inl e \<Rightarrow> Inl e
      | Inr y \<Rightarrow> (case mapM f xs of Inl e \<Rightarrow> Inl e | Inr ys \<Rightarrow> Inr (y # ys)))"

subsection \<open>Rows, datasets and the collaborators\<close>

text \<open>
  A row of a \<^verbatim>\<open>datasets.Dataset\<close> after caption processing: the columns
  \<^verbatim>\<open>image_file\<close> and \<^verbatim>\<open>caption\<close>, and the columns the cached transforms add
  (\<open>None\<close> where the row has no such key). \<open>'t\<close> is a per-sample tensor, opaque here.
\<close>

record 't example =
  image_file :: string
  caption :: string
  latents :: "'t option"
  text_embedding :: "'t option"

record 't hf_dataset =
  rows :: "'t example list"
  fingerprint :: string

datatype fp_arg = ArgInt int | ArgStr string

text \<open>
  The \<^verbatim>\<open>datasets\<close> library: \<open>hasher_hash\<close> is \<^verbatim>\<open>Hasher.hash\<close>;
  \<open>from_dict_fingerprint\<close> is the fingerprint of \<^verbatim>\<open>Dataset.from_dict\<close> of the two file
  columns; \<open>map_fingerprint\<close> is the fingerprint the library derives for the caption map
  from the previous fingerprint and the closure's \<^verbatim>\<open>shuffle_tags\<close> and
  \<^verbatim>\<open>caption_prefix\<close>.
\<close>

record hf_library =
  hasher_hash :: "fp_arg list \<Rightarrow> string"
  from_dict_fingerprint :: "string list \<Rightarrow> string list \<Rightarrow> string"
  map_fingerprint :: "string \<Rightarrow> bool \<Rightarrow> string \<Rightarrow> string"

text \<open>
  The model, PIL and the file system as the code sees them: \<open>read_text p\<close> is the
  content of the text file \<open>p\<close> (\<open>None\<close> when \<^verbatim>\<open>open\<close> raises); \<open>image_open p\<close> is
  \<^verbatim>\<open>Image.open(p)\<close> (\<open>None\<close> when it raises); \<open>image_size\<close> is \<^verbatim>\<open>pil_img.size\<close>;
  \<open>crop_and_resize\<close> and \<open>encode_pil_to_latents\<close> stand for the two functions of that
  name (image and tensor arithmetic, with the VAE); \<open>get_text_embedding i caption\<close> is
  the model's method, moved to the CPU and squeezed; \<open>prepare_inputs\<close> is the model's
  hook.
\<close>

record ('img, 't, 'b) collaborators =
  read_text :: "string \<Rightarrow> string option"
  image_open :: "string \<Rightarrow> 'img option"
  image_size :: "'img \<Rightarrow> nat \<times> nat"
  crop_and_resize :: "'img \<Rightarrow> nat \<times> nat \<Rightarrow> 'img"
  encode_pil_to_latents :: "'img \<Rightarrow> 't"
  get_text_embedding :: "nat \<Rightarrow> string \<Rightarrow> 't"
  prepare_inputs :: "'t list list \<Rightarrow> 'b"

subsection \<open>Caption processing\<close>

text \<open>
  \<^verbatim>\<open>process_caption_fn(shuffle_tags, caption_prefix)\<close> applied to one example. The tag
  shuffle is \<^verbatim>\<open>random.shuffle(tags)\<close> on the global generator, in the state the
  process happens to be in: nothing seeds it.
\<close>

definition process_caption_fn ::
  "'g random_module \<Rightarrow> (string \<Rightarrow> string option) \<Rightarrow> bool \<Rightarrow> string \<Rightarrow>
   string \<times> string \<Rightarrow> 'g \<Rightarrow> py_error + ('t example \<times> 'g)" where
  "process_caption_fn R rd shuffle_tags_v caption_prefix_v ex g =
     (case rd (snd ex) of
        None \<Rightarrow> Inl FileNotFoundError
      | Some content \<Rightarrow>
          (let caption0 = strip content;
               (caption1, g') =
                  (if shuffle_tags_v
                   then (let tags = map strip (split_on CHR '','' caption0);
                             (tags', g1) = random_shuffle R tags g
                         in (join '', '' tags', g1))
                   else (caption0, g));
               caption2 = caption_prefix_v @ caption1
           in Inr (\<lparr> image_file = fst ex, caption = caption2,
                       latents = None, text_embedding = None \<rparr>, g')))"


subsection \<open>SizeBucketDataset\<close>

text \<open>A directory's configuration; the two optional keys get their defaults in the constructor.\<close>

record directory_config =
  path :: string
  shuffle_tags :: "bool option"
  caption_prefix :: "string option"

record 't SizeBucketDataset =
  filepaths :: "(string \<times> string) list"
  config :: directory_config
  size_bucket :: "nat \<times> nat"
  cache_dir :: string
  image_file_and_caption_dataset :: "'t hf_dataset"
  latent_dataset :: "'t hf_dataset option"
  text_embedding_datasets :: "'t hf_dataset list"





text \<open>\<^verbatim>\<open>SizeBucketDataset.__len__\<close>: the length of the caption dataset.\<close>

definition SizeBucketDataset_len :: "'t SizeBucketDataset \<Rightarrow> nat" where
  "SizeBucketDataset_len self = length (rows (image_file_and_caption_dataset self))"

subsection \<open>The fingerprinted cache\<close>

text \<open>
  What a process carries from one call of \<^verbatim>\<open>_map_and_cache\<close> to the next: the list
  object that Python bound once, at function definition, as the default of the parameter
  \<^verbatim>\<open>new_fingerprint_args=[]\<close>, and the cache files on disk, each a directory and a
  file name with the column it stores.
\<close>

record 't process_state =
  default_fingerprint_args :: "fp_arg list"
  cache_files :: "((string \<times> string) \<times> 't example list) list"

text \<open>
  \<^verbatim>\<open>cache_dir.glob(f'{prefix}*.arrow')\<close> on a file name: the prefix, anything, then
  \<^verbatim>\<open>.arrow\<close>. (The prefixes of this file hold no glob metacharacter.)
\<close>

definition glob_match :: "string \<Rightarrow> string \<Rightarrow> bool" where
  "glob_match prefix name =
     (take (length prefix) name = prefix \<and>
      (let rest = drop (length prefix) name
       in length ''.arrow'' \<le> length rest \<and>
          drop (length rest - length ''.arrow'') rest = ''.arrow''))"

definition file_exists :: "'t process_state \<Rightarrow> string \<times> string \<Rightarrow> bool" where
  "file_exists st f = (map_of (cache_files st) f \<noteq> None)"

definition unlink_glob :: "string \<Rightarrow> string \<Rightarrow> 't process_state \<Rightarrow> 't process_state" where
  "unlink_glob dir prefix st =
     st\<lparr> cache_files :=
           filter (\<lambda>(f, c). \<not> (fst f = dir \<and> glob_match prefix (snd f))) (cache_files st) \<rparr>"

definition write_file ::
  "string \<times> string \<Rightarrow> 't example list \<Rightarrow> 't process_state \<Rightarrow> 't process_state" where
  "write_file f c st =
     st\<lparr> cache_files := (f, c) # filter (\<lambda>(f', c'). f' \<noteq> f) (cache_files st) \<rparr>"

text \<open>
  Modelled from the spec: \<^verbatim>\<open>datasets.Dataset.map\<close> is library code outside the
  repository. With a \<^verbatim>\<open>cache_file_name\<close> that exists the column is loaded from the file
  unchanged; otherwise the function is applied to every row in order, a row for which it
  gives \<^verbatim>\<open>None\<close> is dropped from the resulting column, and the column is written to
  the file. Either way the result carries \<^verbatim>\<open>new_fingerprint\<close>. The function's log
  events are collected in row order.
\<close>

definition dataset_map ::
  "('t example \<Rightarrow> 't example option \<times> log_event list) \<Rightarrow> string \<times> string \<Rightarrow> string \<Rightarrow>
   't hf_dataset \<Rightarrow> 't process_state \<Rightarrow> 't hf_dataset \<times> log_event list \<times> 't process_state" where
  "dataset_map map_fn cache_file new_fingerprint dataset st =
     (case map_of (cache_files st) cache_file of
        Some col \<Rightarrow> (\<lparr> rows = col, fingerprint = new_fingerprint \<rparr>, [], st)
      | None \<Rightarrow>
          (let col = List.map_filter (\<lambda>r. fst (map_fn r)) (rows dataset)
           in (\<lparr> rows = col, fingerprint = new_fingerprint \<rparr>,
               concat (map (\<lambda>r. snd (map_fn r)) (rows dataset)),
               write_file cache_file col st)))"

text \<open>
  \<^verbatim>\<open>
  def _map_and_cache(self, dataset, map_fn, cache_file_prefix='', new_fingerprint_args=[]):
      new_fingerprint_args.append(dataset._fingerprint)
      new_fingerprint = Hasher.hash(new_fingerprint_args)
  \<close>
  The argument is \<open>Some xs\<close> when the caller passes a list and \<open>None\<close> when it leaves the
  parameter out; then \<^verbatim>\<open>new_fingerprint_args\<close> is the one default list object, and
  the \<^verbatim>\<open>append\<close> changes it for every later call.
\<close>

definition fingerprint_args ::
  "fp_arg list option \<Rightarrow> 't hf_dataset \<Rightarrow> 't process_state \<Rightarrow> fp_arg list" where
  "fingerprint_args new_fingerprint_args dataset st =
     (case new_fingerprint_args of
        None \<Rightarrow> default_fingerprint_args st
      | Some xs \<Rightarrow> xs) @ [ArgStr (fingerprint dataset)]"

definition map_and_cache ::
  "hf_library \<Rightarrow> 't SizeBucketDataset \<Rightarrow> 't hf_dataset \<Rightarrow>
   ('t example \<Rightarrow> 't example option \<times> log_event list) \<Rightarrow> string \<Rightarrow> fp_arg list option \<Rightarrow>
   't process_state \<Rightarrow> 't hf_dataset \<times> log_event list \<times> 't process_state" where
  "map_and_cache H self dataset map_fn cache_file_prefix new_fingerprint_args st =
     (let args = fingerprint_args new_fingerprint_args dataset st;
          st1 = (case new_fingerprint_args of
                   None \<Rightarrow> st\<lparr> default_fingerprint_args := args \<rparr>
                 | Some xs \<Rightarrow> st);
          new_fingerprint = hasher_hash H args;
          cache_file = (cache_dir self, cache_file_prefix @ new_fingerprint @ ''.arrow'');
          (log1, st2) =
             (if file_exists st1 cache_file then ([InfoCacheHit], st1)
              else ([InfoCacheMiss], unlink_glob (cache_dir self) cache_file_prefix st1));
          (dataset', log2, st3) = dataset_map map_fn cache_file new_fingerprint dataset st2
      in (dataset', log1 @ log2, st3))"

text \<open>\<^verbatim>\<open>process_image_fn(vae, size_bucket)\<close> applied to one example.\<close>

definition process_image_fn ::
  "('img, 't, 'b) collaborators \<Rightarrow> nat \<times> nat \<Rightarrow> 't example \<Rightarrow>
   't example option \<times> log_event list" where
  "process_image_fn C sb ex =
     (case image_open C (image_file ex) of
        None \<Rightarrow> (None, [WarnCannotOpen (image_file ex)])
      | Some pil_img \<Rightarrow>
          (Some (ex\<lparr> latents :=
                      Some (encode_pil_to_latents C (crop_and_resize C pil_img sb)) \<rparr>), []))"

definition get_text_embedding_map_fn ::
  "('img, 't, 'b) collaborators \<Rightarrow> nat \<Rightarrow> 't example \<Rightarrow> 't example option \<times> log_event list" where
  "get_text_embedding_map_fn C i ex =
     (Some (ex\<lparr> text_embedding := Some (get_text_embedding C i (caption ex)) \<rparr>), [])"

text \<open>
  \<^verbatim>\<open>_cache_latents\<close> calls \<^verbatim>\<open>_map_and_cache\<close> without \<^verbatim>\<open>new_fingerprint_args\<close>;
  \<^verbatim>\<open>_cache_text_embedding(i)\<close> passes the fresh list \<^verbatim>\<open>[i]\<close>.
\<close>

definition cache_latents ::
  "hf_library \<Rightarrow> ('img, 't, 'b) collaborators \<Rightarrow> 't SizeBucketDataset \<Rightarrow> 't process_state \<Rightarrow>
   't SizeBucketDataset \<times> log_event list \<times> 't process_state" where
  "cache_latents H C self st =
     (let (d, lg, st') =
            map_and_cache H self (image_file_and_caption_dataset self)
              (process_image_fn C (size_bucket self)) ''latent_'' None st
      in (self\<lparr> latent_dataset := Some d \<rparr>, lg, st'))"

definition cache_text_embedding ::
  "hf_library \<Rightarrow> ('img, 't, 'b) collaborators \<Rightarrow> nat \<Rightarrow> 't SizeBucketDataset \<Rightarrow>
   't process_state \<Rightarrow> 't SizeBucketDataset \<times> log_event list \<times> 't process_state" where
  "cache_text_embedding H C i self st =
     (let (d, lg, st') =
            map_and_cache H self (image_file_and_caption_dataset self)
              (get_text_embedding_map_fn C i)
              (''text_embedding_'' @ str_nat (i + 1) @ ''_'') (Some [ArgInt (int i)]) st
      in (self\<lparr> text_embedding_datasets := text_embedding_datasets self @ [d] \<rparr>, lg, st'))"

text \<open>
  \<^verbatim>\<open>SizeBucketDataset.__getitem__\<close>: the tuple \<^verbatim>\<open>(latents, *text_embeddings)\<close> as a
  list. A missing attribute, an index past a column's end and a missing key raise.
\<close>

definition column_item ::
  "('t example \<Rightarrow> 't option) \<Rightarrow> nat \<Rightarrow> 't hf_dataset \<Rightarrow> py_error + 't" where
  "column_item key i d =
     (if length (rows d) \<le> i then Inl IndexError
      else (case key (rows d ! i) of None \<Rightarrow> Inl KeyError | Some v \<Rightarrow> Inr v))"

definition SizeBucketDataset_getitem :: "'t SizeBucketDataset \<Rightarrow> nat \<Rightarrow> py_error + 't list" where
  "SizeBucketDataset_getitem self i =
     (case latent_dataset self of
        None \<Rightarrow> Inl AttributeError
      | Some ld \<Rightarrow>
          (case column_item latents i ld of
             Inl e \<Rightarrow> Inl e
           | Inr lat \<Rightarrow>
               (case mapM (column_item text_embedding i) (text_embedding_datasets self) of
                  Inl e \<Rightarrow> Inl e
                | Inr tes \<Rightarrow> Inr (lat # tes))))"

subsection \<open>ConcatenatedDataset\<close>

record 't ConcatenatedDataset =
  datasets :: "'t SizeBucketDataset list"
  iteration_order :: "nat list"

text \<open>
  \<^verbatim>\<open>
  for i, ds in enumerate(self.datasets):
      iteration_order.extend([i]*len(ds))
  \<close>
\<close>

definition extend_indices :: "nat list \<Rightarrow> nat list" where
  "extend_indices counts = concat (map (\<lambda>(i, c). replicate c i) (enumerate 0 counts))"

definition ConcatenatedDataset_init ::
  "'g random_module \<Rightarrow> 't SizeBucketDataset list \<Rightarrow> 'g \<Rightarrow> 't ConcatenatedDataset \<times> 'g" where
  "ConcatenatedDataset_init R dss g =
     (let (order, g') =
            shuffle_with_seed R (extend_indices (map SizeBucketDataset_len dss)) (SeedInt 0) g
      in (\<lparr> datasets = dss, iteration_order = order \<rparr>, g'))"

definition ConcatenatedDataset_len :: "'t ConcatenatedDataset \<Rightarrow> nat" where
  "ConcatenatedDataset_len self = length (iteration_order self)"

text \<open>
  \<^verbatim>\<open>
  def _make_divisible_by(self, n):
      new_length = (len(self) // n) * n
      self.iteration_order = self.iteration_order[:new_length]
      if new_length == 0 and is_main_process():
          logger.warning(f"size bucket {self.datasets[0].size_bucket} is being ...")
  \<close>
  \<open>is_main\<close> is what \<^verbatim>\<open>is_main_process()\<close> returns in this process. Integer division by
  zero raises, and so does \<^verbatim>\<open>self.datasets[0]\<close> on an empty list.
\<close>

definition ConcatenatedDataset_make_divisible_by ::
  "bool \<Rightarrow> nat \<Rightarrow> 't ConcatenatedDataset \<Rightarrow> py_error + ('t ConcatenatedDataset \<times> log_event list)" where
  "ConcatenatedDataset_make_divisible_by is_main n self =
     (if n = 0 then Inl ZeroDivisionError
      else
        (let new_length = (ConcatenatedDataset_len self div n) * n;
             self' = self\<lparr> iteration_order := take new_length (iteration_order self) \<rparr>
         in if new_length = 0 \<and> is_main
            then (case datasets self' of
                    [] \<Rightarrow> Inl IndexError
                  | d # ds \<Rightarrow> Inr (self', [WarnBucketDropped (size_bucket d)]))
            else Inr (self', [])))"

subsection \<open>Dataset\<close>

record 't Dataset =
  buckets :: "'t ConcatenatedDataset list"
  post_init_called :: bool
  data_parallel_rank :: nat
  data_parallel_world_size :: nat
  batch_size :: nat
  global_batch_size :: nat
  selection_order :: "nat list"

text \<open>
  The field \<open>selection_order\<close> is the attribute \<^verbatim>\<open>Dataset.iteration_order\<close>, renamed
  apart from the bucket's attribute of the same name.
  \<^verbatim>\<open>
  def _make_divisible_by(self, n):
      for ds in self.buckets:
          ds._make_divisible_by(n)
      iteration_order = []
      for i, bucket in enumerate(self.buckets):
          iteration_order.extend([i]*(len(bucket) // n))
      shuffle_with_seed(iteration_order, 0)
      self.iteration_order = iteration_order
  \<close>
\<close>

definition Dataset_make_divisible_by ::
  "'g random_module \<Rightarrow> bool \<Rightarrow> nat \<Rightarrow> 't Dataset \<Rightarrow> 'g \<Rightarrow>
   py_error + ('t Dataset \<times> log_event list \<times> 'g)" where
  "Dataset_make_divisible_by R is_main n self g =
     (case mapM (ConcatenatedDataset_make_divisible_by is_main n) (buckets self) of
        Inl e \<Rightarrow> Inl e
      | Inr trimmed \<Rightarrow>
          (let bs = map fst trimmed;
               order0 = extend_indices (map (\<lambda>bucket. ConcatenatedDataset_len bucket div n) bs);
               (order, g') = shuffle_with_seed R order0 (SeedInt 0) g
           in Inr (self\<lparr> buckets := bs, selection_order := order \<rparr>,
                   concat (map snd trimmed), g')))"

definition post_init ::
  "'g random_module \<Rightarrow> bool \<Rightarrow> nat \<Rightarrow> nat \<Rightarrow> nat \<Rightarrow> nat \<Rightarrow> 't Dataset \<Rightarrow> 'g \<Rightarrow>
   py_error + ('t Dataset \<times> log_event list \<times> 'g)" where
  "post_init R is_main rank world_size per_device_batch_size gradient_accumulation_steps self g =
     (let self1 = self\<lparr> data_parallel_rank := rank,
                       data_parallel_world_size := world_size,
                       batch_size := per_device_batch_size * gradient_accumulation_steps \<rparr>;
          self2 = self1\<lparr> global_batch_size := data_parallel_world_size self1 * batch_size self1 \<rparr>
      in case Dataset_make_divisible_by R is_main (global_batch_size self2) self2 g of
           Inl e \<Rightarrow> Inl e
         | Inr (self3, lg, g') \<Rightarrow> Inr (self3\<lparr> post_init_called := True \<rparr>, lg, g'))"

text \<open>\<^verbatim>\<open>Dataset.__len__\<close>, with its assertion.\<close>

definition Dataset_len :: "'t Dataset \<Rightarrow> py_error + nat" where
  "Dataset_len self =
     (if post_init_called self then Inr (length (selection_order self)) else Inl AssertionError)"

subsection \<open>Iteration\<close>

text \<open>
  The generators of the three classes, each as the state it keeps and a step function.
  \<^verbatim>\<open>SizeBucketDataset.__iter__\<close> counts an index up to \<^verbatim>\<open>len(self)\<close>; its step is
  \<^verbatim>\<open>next\<close> on it, which raises \<^verbatim>\<open>StopIteration\<close> at the end and whatever
  \<^verbatim>\<open>__getitem__\<close> raises before.
\<close>

definition SizeBucketDataset_next :: "'t SizeBucketDataset \<Rightarrow> nat \<Rightarrow> py_error + ('t list \<times> nat)" where
  "SizeBucketDataset_next self i =
     (if i < SizeBucketDataset_len self
      then (case SizeBucketDataset_getitem self i of
              Inl e \<Rightarrow> Inl e
            | Inr x \<Rightarrow> Inr (x, Suc i))
      else Inl StopIteration)"

text \<open>
  \<^verbatim>\<open>
  def __iter__(self):
      iterators = [iter(ds) for ds in self.datasets]
      for i in self.iteration_order:
          yield next(iterators[i])
  \<close>
  The state is the rest of the iteration order and the index each source iterator stands
  at. A \<^verbatim>\<open>StopIteration\<close> that escapes inside a generator body surfaces as
  \<^verbatim>\<open>RuntimeError\<close>.
\<close>

type_synonym bucket_iterator = "nat list \<times> nat list"

definition ConcatenatedDataset_iter :: "'t ConcatenatedDataset \<Rightarrow> bucket_iterator" where
  "ConcatenatedDataset_iter self = (iteration_order self, replicate (length (datasets self)) 0)"

definition in_generator :: "py_error \<Rightarrow> py_error" where
  "in_generator e = (if e = StopIteration then RuntimeError else e)"

definition ConcatenatedDataset_next ::
  "'t ConcatenatedDataset \<Rightarrow> bucket_iterator \<Rightarrow> py_error + ('t list \<times> bucket_iterator)" where
  "ConcatenatedDataset_next self it =
     (case fst it of
        [] \<Rightarrow> Inl StopIteration
      | i # rest \<Rightarrow>
          (if length (snd it) \<le> i then Inl IndexError
           else (case SizeBucketDataset_next (datasets self ! i) (snd it ! i) of
                   Inl e \<Rightarrow> Inl (in_generator e)
                 | Inr (x, k) \<Rightarrow> Inr (x, (rest, (snd it)[i := k])))))"

text \<open>\<^verbatim>\<open>[next(iterator) for _ in range(n)]\<close> inside the generator of \<^verbatim>\<open>Dataset\<close>.\<close>

fun pull_examples ::
  "'t ConcatenatedDataset \<Rightarrow> nat \<Rightarrow> bucket_iterator \<Rightarrow> py_error + ('t list list \<times> bucket_iterator)" where
  "pull_examples bucket 0 it = Inr ([], it)"
| "pull_examples bucket (Suc n) it =
     (case ConcatenatedDataset_next bucket it of
        Inl e \<Rightarrow> Inl (in_generator e)
      | Inr (x, it') \<Rightarrow>
          (case pull_examples bucket n it' of
             Inl e \<Rightarrow> Inl e
           | Inr (xs, it'') \<Rightarrow> Inr (x # xs, it'')))"

text \<open>
  \<^verbatim>\<open>_collate\<close>: \<^verbatim>\<open>zip(*examples)\<close> stops at the shortest tuple, and
  \<^verbatim>\<open>torch.stack(tensors, dim=0)\<close> makes of each column one tensor whose leading
  dimension counts the examples: a batched tensor is the list of its rows. (That the rows
  of one column agree in shape is the bucket's business and not modelled.)
\<close>

definition collate :: "'t list list \<Rightarrow> 't list list" where
  "collate examples =
     (if examples = [] then []
      else map (\<lambda>k. map (\<lambda>ex. ex ! k) examples) [0..<min_list (map length examples)])"

text \<open>
  \<^verbatim>\<open>
  start_idx = self.data_parallel_rank*self.batch_size
  selector = slice(start_idx, start_idx + self.batch_size)
  batch_for_this_dp_rank = tuple(x[selector] for x in batch)
  \<close>
  A slice past the end is cut short, as \<open>take\<close> and \<open>drop\<close> are.
\<close>

definition rank_slice :: "'t Dataset \<Rightarrow> 't list list \<Rightarrow> 't list list" where
  "rank_slice self batch =
     (let start_idx = data_parallel_rank self * batch_size self
      in map (\<lambda>x. take (batch_size self) (drop start_idx x)) batch)"

text \<open>
  The body of \<^verbatim>\<open>Dataset.__iter__\<close> over the selection order: the rank-local slices in
  the order they are handed to \<^verbatim>\<open>prepare_inputs\<close>, or the error that ends the
  generator.
\<close>

fun Dataset_slices ::
  "'t Dataset \<Rightarrow> nat list \<Rightarrow> bucket_iterator list \<Rightarrow> py_error + 't list list list" where
  "Dataset_slices self [] iterators = Inr []"
| "Dataset_slices self (i # rest) iterators =
     (if length iterators \<le> i then Inl IndexError
      else (case pull_examples (buckets self ! i) (global_batch_size self) (iterators ! i) of
              Inl e \<Rightarrow> Inl e
            | Inr (examples, it') \<Rightarrow>
                (case Dataset_slices self rest (iterators[i := it']) of
                   Inl e \<Rightarrow> Inl e
                 | Inr bs \<Rightarrow> Inr (rank_slice self (collate examples) # bs))))"

definition Dataset_rank_batches :: "'t Dataset \<Rightarrow> py_error + 't list list list" where
  "Dataset_rank_batches self =
     (if \<not> post_init_called self then Inl AssertionError
      else Dataset_slices self (selection_order self) (map ConcatenatedDataset_iter (buckets self)))"

definition Dataset_iter :: "('img, 't, 'b) collaborators \<Rightarrow> 't Dataset \<Rightarrow> py_error + 'b list" where
  "Dataset_iter C self =
     (case Dataset_rank_batches self of
        Inl e \<Rightarrow> Inl e
      | Inr bs \<Rightarrow> Inr (map (prepare_inputs C) bs))"

text \<open>
  The samples one full pass over a bucket yields, in order: \<^verbatim>\<open>list(bucket)\<close>.
\<close>

definition bucket_samples :: "'t ConcatenatedDataset \<Rightarrow> py_error + 't list list" where
  "bucket_samples bucket =
     (case pull_examples bucket (ConcatenatedDataset_len bucket) (ConcatenatedDataset_iter bucket) of
        Inl e \<Rightarrow> Inl e
      | Inr (xs, it) \<Rightarrow> Inr xs)"

text \<open>
  Two conditions under which iteration is studied. A bucket dataset is readable when
  \<^verbatim>\<open>self[i]\<close> returns for every index below \<^verbatim>\<open>len(self)\<close>: the caches are
  populated and no cached column has lost a row. A bucket is iterable when its interleave
  index names only source datasets it has, no more often than the source has samples,
  and its sources are readable; the constructor establishes the first two.
\<close>

definition readable :: "'t SizeBucketDataset \<Rightarrow> bool" where
  "readable ds = (\<forall>i<SizeBucketDataset_len ds. \<exists>x. SizeBucketDataset_getitem ds i = Inr x)"

definition iterable :: "'t ConcatenatedDataset \<Rightarrow> bool" where
  "iterable bucket =
     ((\<forall>j\<in>set (iteration_order bucket). j < length (datasets bucket)) \<and>
      (\<forall>j<length (datasets bucket).
          count_list (iteration_order bucket) j \<le> SizeBucketDataset_len (datasets bucket ! j)) \<and>
      (\<forall>ds\<in>set (datasets bucket). readable ds))"

subsection \<open>PipelineDataLoader\<close>

text \<open>
  \<^verbatim>\<open>torch.split(tensor, split_size)\<close> along the leading dimension: pieces of
  \<^verbatim>\<open>split_size\<close> rows, the last one shorter when the size does not divide; one
  empty piece for an empty tensor; an error for size 0 on a tensor that has rows.
\<close>

function chunks :: "nat \<Rightarrow> 'a list \<Rightarrow> 'a list list" where
  "chunks k xs = (if k = 0 \<or> xs = [] then [] else take k xs # chunks k (drop k xs))"
  by pat_completeness auto
termination
  by (relation "measure (\<lambda>(k, xs). length xs)") auto

declare chunks.simps [simp del]

definition torch_split :: "'a list \<Rightarrow> nat \<Rightarrow> py_error + 'a list list" where
  "torch_split tensor split_size =
     (if tensor = [] then Inr [[]]
      else if split_size = 0 then Inl RuntimeError
      else Inr (chunks split_size tensor))"

text \<open>
  \<^verbatim>\<open>
  def split_batch(batch, pieces):
      example_tuple = batch
      split_size = example_tuple[0].size(0) // pieces
      split_examples = zip(*(torch.split(tensor, split_size) for tensor in example_tuple))
      return [(ex, None) for ex in split_examples]
  \<close>
  A microbatch is the pair of the tuple of pieces and \<^verbatim>\<open>None\<close>.
\<close>

type_synonym 'u microbatch = "'u list list \<times> unit option"

definition split_batch :: "'u list list \<Rightarrow> nat \<Rightarrow> py_error + 'u microbatch list" where
  "split_batch batch pieces =
     (case batch of
        [] \<Rightarrow> Inl IndexError
      | first # others \<Rightarrow>
          (if pieces = 0 then Inl ZeroDivisionError
           else (let split_size = length first div pieces
                 in case mapM (\<lambda>tensor. torch_split tensor split_size) batch of
                      Inl e \<Rightarrow> Inl e
                    | Inr splits \<Rightarrow> Inr (map (\<lambda>ex. (ex, None)) (collate splits)))))"

text \<open>
  The loader. \<open>dataset\<close> is what one pass over the wrapped dataset yields (the
  \<^verbatim>\<open>DataLoader\<close> with \<^verbatim>\<open>batch_size=None\<close> hands the items on as they are);
  \<open>data\<close> is the state of the generator \<^verbatim>\<open>_pull_batches_from_dataloader\<close>: the
  microbatches of the current batch not yet yielded and the batches not yet pulled.
\<close>

record 'u PipelineDataLoader =
  dataset :: "'u list list list"
  gradient_accumulation_steps :: nat
  epoch :: nat
  num_batches_pulled :: nat
  data :: "'u microbatch list \<times> 'u list list list"

definition create_dataloader :: "'u PipelineDataLoader \<Rightarrow> 'u PipelineDataLoader" where
  "create_dataloader self = self\<lparr> data := ([], dataset self), num_batches_pulled := 0 \<rparr>"

definition reset :: "'u PipelineDataLoader \<Rightarrow> 'u PipelineDataLoader" where
  "reset self = create_dataloader (self\<lparr> epoch := 1, num_batches_pulled := 0 \<rparr>)"

definition PipelineDataLoader_init :: "'u list list list \<Rightarrow> nat \<Rightarrow> 'u PipelineDataLoader" where
  "PipelineDataLoader_init ds gas =
     reset \<lparr> dataset = ds, gradient_accumulation_steps = gas, epoch = 0,
             num_batches_pulled = 0, data = ([], []) \<rparr>"

text \<open>
  \<^verbatim>\<open>next(self.data)\<close>: the generator yields the next microbatch of the batch in
  hand, or pulls the next batch, counts it and splits it. The result is the microbatch or
  the exception, with the generator's new state and the new \<^verbatim>\<open>num_batches_pulled\<close>:
  \<^verbatim>\<open>StopIteration\<close> when the batches are used up, and whatever \<^verbatim>\<open>split_batch\<close>
  raises, after which the generator is finished.
\<close>

fun pull_batches_from_dataloader ::
  "nat \<Rightarrow> 'u microbatch list \<Rightarrow> 'u list list list \<Rightarrow> nat \<Rightarrow>
   (py_error + 'u microbatch) \<times> ('u microbatch list \<times> 'u list list list) \<times> nat" where
  "pull_batches_from_dataloader gas (mb # pending) batches pulled =
     (Inr mb, (pending, batches), pulled)"
| "pull_batches_from_dataloader gas [] [] pulled = (Inl StopIteration, ([], []), pulled)"
| "pull_batches_from_dataloader gas [] (batch # batches) pulled =
     (case split_batch batch gas of
        Inl e \<Rightarrow> (Inl (in_generator e), ([], []), Suc pulled)
      | Inr mbs \<Rightarrow> pull_batches_from_dataloader gas mbs batches (Suc pulled))"

definition next_data ::
  "'u PipelineDataLoader \<Rightarrow> (py_error + 'u microbatch) \<times> 'u PipelineDataLoader" where
  "next_data self =
     (case pull_batches_from_dataloader (gradient_accumulation_steps self)
             (fst (data self)) (snd (data self)) (num_batches_pulled self) of
        (r, d, pulled) \<Rightarrow> (r, self\<lparr> data := d, num_batches_pulled := pulled \<rparr>))"

text \<open>
  \<^verbatim>\<open>
  def __next__(self):
      try:
          micro_batch = next(self.data)
      except StopIteration:
          self._create_dataloader()
          micro_batch = next(self.data)
          self.epoch += 1
      return micro_batch
  \<close>
  The result is the microbatch or the exception that leaves \<^verbatim>\<open>__next__\<close>, and the
  loader as the call leaves it. The second \<^verbatim>\<open>next\<close> is outside the \<^verbatim>\<open>try\<close>:
  what it raises leaves \<^verbatim>\<open>__next__\<close> before the epoch is incremented.
\<close>

definition PipelineDataLoader_next ::
  "'u PipelineDataLoader \<Rightarrow> (py_error + 'u microbatch) \<times> 'u PipelineDataLoader" where
  "PipelineDataLoader_next self =
     (case next_data self of
        (Inr micro_batch, self1) \<Rightarrow> (Inr micro_batch, self1)
      | (Inl e, self1) \<Rightarrow>
          (if e = StopIteration
           then (case next_data (create_dataloader self1) of
                   (Inr micro_batch, self2) \<Rightarrow>
                     (Inr micro_batch, self2\<lparr> epoch := epoch self2 + 1 \<rparr>)
                 | (Inl e2, self2) \<Rightarrow> (Inl e2, self2))
           else (Inl e, self1)))"

text \<open>
  \<open>k\<close> calls of \<^verbatim>\<open>next\<close> in a row: the microbatches returned, or the exception of
  the first call that raises, and the loader after them.
\<close>

fun next_calls ::
  "nat \<Rightarrow> 'u PipelineDataLoader \<Rightarrow> (py_error + 'u microbatch list) \<times> 'u PipelineDataLoader" where
  "next_calls 0 self = (Inr [], self)"
| "next_calls (Suc k) self =
     (case PipelineDataLoader_next self of
        (Inl e, self') \<Rightarrow> (Inl e, self')
      | (Inr mb, self') \<Rightarrow>
          (case next_calls k self' of
             (Inl e, self'') \<Rightarrow> (Inl e, self'')
           | (Inr mbs, self'') \<Rightarrow> (Inr (mb # mbs), self'')))"

text \<open>
  What one pass yields: the microbatches of the batches, in order, when every split
  succeeds.
\<close>

definition microbatches_of_pass ::
  "nat \<Rightarrow> 'u list list list \<Rightarrow> py_error + 'u microbatch list" where
  "microbatches_of_pass gas batches =
     (case mapM (\<lambda>b. split_batch b gas) batches of
        Inl e \<Rightarrow> Inl e
      | Inr mbss \<Rightarrow> Inr (concat mbss))"

subsection \<open>Directory scan and bucketing\<close>


text \<open>
  \<^verbatim>\<open>Path.suffix\<close> and \<^verbatim>\<open>Path.with_suffix\<close>: the suffix starts at the last dot of the
  final component, unless that dot is its first or its last character.
\<close>

definition path_name :: "string \<Rightarrow> string" where
  "path_name p = rev (takeWhile (\<lambda>c. c \<noteq> CHR ''/'') (rev p))"










subsection \<open>Concrete objects for evaluating the definitions\<close>

definition demo_rows :: "nat \<Rightarrow> nat example list" where
  "demo_rows n =
     map (\<lambda>k. \<lparr> image_file = ''img'' @ str_nat k @ ''.png'', caption = ''a photo'',
                 latents = None, text_embedding = None \<rparr>) [0..<n]"

definition demo_bucket_dataset :: "nat \<Rightarrow> nat SizeBucketDataset" where
  "demo_bucket_dataset n =
     \<lparr> filepaths = map (\<lambda>r. (image_file r, ''caption.txt'')) (demo_rows n),
       config = \<lparr> path = ''data'', shuffle_tags = Some False, caption_prefix = Some [] \<rparr>,
       size_bucket = (512, 512),
       cache_dir = ''data/cache/cache_512x512'',
       image_file_and_caption_dataset = \<lparr> rows = demo_rows n, fingerprint = ''f0'' \<rparr>,
       latent_dataset = None,
       text_embedding_datasets = [] \<rparr>"

text \<open>
  The same bucket dataset with both caches populated: sample \<open>k\<close> has the latents
  \<open>100 + k\<close> and one text embedding \<open>200 + k\<close>.
\<close>

definition demo_cached :: "nat \<Rightarrow> nat SizeBucketDataset" where
  "demo_cached n =
     (demo_bucket_dataset n)
       \<lparr> latent_dataset :=
           Some \<lparr> rows = map (\<lambda>k. (demo_rows n ! k)\<lparr> latents := Some (100 + k) \<rparr>) [0..<n],
                  fingerprint = ''f1'' \<rparr>,
         text_embedding_datasets :=
           [\<lparr> rows = map (\<lambda>k. (demo_rows n ! k)\<lparr> text_embedding := Some (200 + k) \<rparr>) [0..<n],
              fingerprint = ''f2'' \<rparr>] \<rparr>"

text \<open>A bucket over one source dataset of \<open>n\<close> samples, of which the order keeps \<open>k\<close>.\<close>

definition demo_bucket :: "nat \<Rightarrow> nat \<Rightarrow> nat ConcatenatedDataset" where
  "demo_bucket n k = \<lparr> datasets = [demo_bucket_dataset n], iteration_order = replicate k 0 \<rparr>"

definition demo_dataset :: "(nat \<times> nat) list \<Rightarrow> nat Dataset" where
  "demo_dataset nks =
     \<lparr> buckets = map (\<lambda>(n, k). demo_bucket n k) nks, post_init_called = False,
       data_parallel_rank = 0,
       data_parallel_world_size = 0, batch_size = 0, global_batch_size = 0,
       selection_order = [] \<rparr>"

text \<open>
  A dataset before \<^verbatim>\<open>post_init\<close>, each bucket built by the constructor of
  \<^verbatim>\<open>ConcatenatedDataset\<close> from the bucket datasets given for it.
\<close>

definition demo_loaded :: "nat SizeBucketDataset list list \<Rightarrow> nat Dataset" where
  "demo_loaded dsss =
     \<lparr> buckets = map (\<lambda>dss. fst (ConcatenatedDataset_init rot_random dss 0)) dsss,
       post_init_called = False, data_parallel_rank = 0,
       data_parallel_world_size = 0, batch_size = 0, global_batch_size = 0,
       selection_order = [] \<rparr>"

text \<open>
  Collaborators for evaluation: an image is its size, \<^verbatim>\<open>img1.png\<close> cannot be opened,
  every caption file but \<^verbatim>\<open>missing.txt\<close> reads the same three tags, and tensors are
  numbers. The hasher writes its arguments out one after the other.
\<close>

definition demo_collaborators :: "(nat \<times> nat, nat, nat list list) collaborators" where
  "demo_collaborators =
     \<lparr> read_text = (\<lambda>p. if p = ''missing.txt'' then None else Some ''red, green ,blue ''),
       image_open = (\<lambda>p. if path_name p = ''img1.png'' then None else Some (700, 500)),
       image_size = (\<lambda>im. im),
       crop_and_resize = (\<lambda>im sb. sb),
       encode_pil_to_latents = (\<lambda>im. fst im + snd im),
       get_text_embedding = (\<lambda>i c. i + length c),
       prepare_inputs = (\<lambda>b. b) \<rparr>"

definition demo_hf :: hf_library where
  "demo_hf =
     \<lparr> hasher_hash =
         (\<lambda>args. concat (map (\<lambda>a. case a of ArgInt i \<Rightarrow> str_nat (nat i) @ ''-''
                                        | ArgStr s \<Rightarrow> s @ ''-'') args)),
       from_dict_fingerprint = (\<lambda>images captions. ''d''),
       map_fingerprint = (\<lambda>fp st cp. fp @ cp @ (if st then ''T'' else ''F'')) \<rparr>"


definition fresh_process :: "nat process_state" where
  "fresh_process = \<lparr> default_fingerprint_args = [], cache_files = [] \<rparr>"

definition stale_process :: "nat process_state" where
  "stale_process =
     \<lparr> default_fingerprint_args = [],
       cache_files =
         [((''data/cache/cache_512x512'', ''latent_old.arrow''), []),
          ((''data/cache/cache_512x512'', ''text_embedding_1_old.arrow''), []),
          ((''other/cache/cache_512x512'', ''latent_old.arrow''), [])] \<rparr>"

section \<open>Verified properties\<close>

subsection \<open>The seeded shuffle\<close>

lemma mset_random_shuffle:
  assumes "permuting R"
  shows "mset (fst (random_shuffle R l g)) = mset l"
proof -
  obtain p g' where pg: "shuffle_perm R g (length l) = (p, g')"
    by (cases "shuffle_perm R g (length l)")
  have "mset p = mset [0..<length l]"
    using assms pg unfolding permuting_def by (metis fst_conv)
  then have "mset (map (\<lambda>i. l ! i) p) = mset (map (\<lambda>i. l ! i) [0..<length l])"
    by (metis mset_map)
  then show ?thesis
    by (simp add: random_shuffle_def pg map_nth)
qed

lemma mset_shuffle_with_seed:
  "permuting R \<Longrightarrow> mset (fst (shuffle_with_seed R l seed g)) = mset l"
  using mset_random_shuffle [of R l "random_seed R seed"]
  by (auto simp: shuffle_with_seed_def Let_def split: prod.splits)

lemma length_shuffle_with_seed:
  "permuting R \<Longrightarrow> length (fst (shuffle_with_seed R l seed g)) = length l"
  by (metis mset_shuffle_with_seed size_mset)

lemma snd_shuffle_with_seed: "snd (shuffle_with_seed R l seed g) = g"
  by (simp add: shuffle_with_seed_def Let_def split: prod.splits)

lemma fst_shuffle_with_seed:
  "fst (shuffle_with_seed R l seed g) = fst (random_shuffle R l (random_seed R seed))"
  by (simp add: shuffle_with_seed_def Let_def split: prod.splits)

lemma mset_rotate_eq: "mset (rotate k xs) = mset xs"
proof -
  have "mset (drop j xs @ take j xs) = mset (take j xs @ drop j xs)" for j
    by (simp only: mset_append add.commute)
  then show ?thesis
    by (simp add: rotate_drop_take)
qed

lemma permuting_rot_random: "permuting rot_random"
  by (simp add: permuting_def rot_random_def mset_rotate_eq del: rotate_Suc mset_upt)

text \<open>
  Claim C8, as the code has it. For every list, every seed argument (\<^verbatim>\<open>None\<close>
  included) and every state of the global generator, \<^verbatim>\<open>shuffle_with_seed\<close> leaves the
  generator in the state it found it in. For every seed that is an integer the shuffled
  list is fixed by the list and the seed alone: two calls with the same seed return the
  same list from any two generator states.
\<close>

theorem shuffle_with_seed_restores_state:
  "snd (shuffle_with_seed R l seed g) = g \<and>
   fst (shuffle_with_seed R l (SeedInt s) g) = fst (shuffle_with_seed R l (SeedInt s) g')"
  by (simp add: shuffle_with_seed_def Let_def split: prod.splits)

text \<open>
  The claim as the specification states it fails at the default seed \<^verbatim>\<open>None\<close>: the
  library then seeds from the operating system's entropy, and two calls with the same
  argument \<^verbatim>\<open>None\<close>, on the same list and from the same generator state, return
  different orders when the entropy differs.
\<close>

theorem shuffle_with_seed_none_not_determined:
  "fst (shuffle_with_seed rot_random [10, 20, 30 :: nat] (SeedNone 0) 7) = [20, 30, 10] \<and>
   fst (shuffle_with_seed rot_random [10, 20, 30 :: nat] (SeedNone 1) 7) = [30, 10, 20]"
  by code_simp

subsection \<open>Trimming a bucket\<close>

lemma largest_multiple:
  fixes n :: nat
  assumes "0 < n"
  shows "(l div n) * n \<le> l" and "n dvd k \<Longrightarrow> k \<le> l \<Longrightarrow> k \<le> (l div n) * n"
proof -
  show "(l div n) * n \<le> l" by simp
  assume "n dvd k" "k \<le> l"
  then obtain q where q: "k = n * q" by (auto simp: dvd_def)
  with \<open>k \<le> l\<close> assms have "q \<le> l div n"
    by (metis div_le_mono nonzero_mult_div_cancel_left less_numeral_extra(3))
  then show "k \<le> (l div n) * n" using q by (simp add: mult.commute)
qed

text \<open>
  Claim C5, as the code has it. For a bucket with at least one source dataset and
  \<open>n \<ge> 1\<close>, trimming never raises; it keeps the source datasets and cuts the interleave
  index to a prefix whose length is a multiple of \<open>n\<close>, at most the old length, and the
  largest such. The warning is logged exactly when that length is 0 and the process is
  the main process; other processes log nothing.
\<close>

theorem trim_to_largest_multiple:
  assumes "1 \<le> n" and "datasets self \<noteq> []"
  shows "\<exists>self'.
    ConcatenatedDataset_make_divisible_by is_main n self =
       Inr (self', if ConcatenatedDataset_len self' = 0 \<and> is_main
                   then [WarnBucketDropped (size_bucket (hd (datasets self)))] else []) \<and>
    datasets self' = datasets self \<and>
    iteration_order self' = take (ConcatenatedDataset_len self') (iteration_order self) \<and>
    n dvd ConcatenatedDataset_len self' \<and>
    ConcatenatedDataset_len self' \<le> ConcatenatedDataset_len self \<and>
    (\<forall>k. n dvd k \<and> k \<le> ConcatenatedDataset_len self \<longrightarrow> k \<le> ConcatenatedDataset_len self')"
proof -
  let ?l = "ConcatenatedDataset_len self"
  let ?m = "(?l div n) * n"
  let ?s = "self\<lparr> iteration_order := take ?m (iteration_order self) \<rparr>"
  have n: "0 < n" using assms by simp
  have len: "ConcatenatedDataset_len ?s = ?m"
    using largest_multiple(1) [OF n, of ?l] by (simp add: ConcatenatedDataset_len_def)
  obtain d ds where d: "datasets self = d # ds"
    using assms(2) by (cases "datasets self") auto
  have "ConcatenatedDataset_make_divisible_by is_main n self =
       Inr (?s, if ?m = 0 \<and> is_main
                then [WarnBucketDropped (size_bucket (hd (datasets self)))] else [])"
    using n d by (simp add: ConcatenatedDataset_make_divisible_by_def Let_def)
  moreover have "\<forall>k. n dvd k \<and> k \<le> ?l \<longrightarrow> k \<le> ?m"
    using largest_multiple(2) [OF n] by blast
  ultimately show ?thesis
    using len largest_multiple(1) [OF n, of ?l]
    by (intro exI [of _ ?s]) (simp del: div_mult_self1_is_m div_mult_self_is_m)
qed

text \<open>
  On the main process a 7-element bucket trimmed to a multiple of 3 keeps 6 elements and
  logs nothing; a 2-element bucket keeps none and logs the warning.
\<close>

theorem trim_to_largest_multiple_witness:
  "(1::nat) \<le> 3 \<and> datasets (demo_bucket 7 7) \<noteq> [] \<and> datasets (demo_bucket 2 2) \<noteq> [] \<and>
   ConcatenatedDataset_make_divisible_by True 3 (demo_bucket 7 7) = Inr (demo_bucket 7 6, []) \<and>
   ConcatenatedDataset_len (demo_bucket 7 6) = 6 \<and>
   ConcatenatedDataset_make_divisible_by True 3 (demo_bucket 2 2) =
     Inr (demo_bucket 2 0, [WarnBucketDropped (512, 512)]) \<and>
   ConcatenatedDataset_len (demo_bucket 2 0) = 0"
proof -
  have a: "ConcatenatedDataset_make_divisible_by True 3 (demo_bucket 7 7) = Inr (demo_bucket 7 6, [])"
    by code_simp
  have b: "ConcatenatedDataset_make_divisible_by True 3 (demo_bucket 2 2) =
             Inr (demo_bucket 2 0, [WarnBucketDropped (512, 512)])"
    by code_simp
  have c: "datasets (demo_bucket 7 7) \<noteq> []" "datasets (demo_bucket 2 2) \<noteq> []"
    by (simp_all add: demo_bucket_def)
  have n: "(1::nat) \<le> 3" by simp
  show ?thesis
    using trim_to_largest_multiple [OF n c(1), of True]
          trim_to_largest_multiple [OF n c(2), of True] a b c
    by (simp add: ConcatenatedDataset_len_def demo_bucket_def)
qed

text \<open>
  The claim as the specification states it fails off the main process: a 2-element bucket
  trimmed to a multiple of 3 ends with length 0 and no warning is logged.
\<close>

theorem trim_warning_only_on_main_process:
  "ConcatenatedDataset_make_divisible_by False 3 (demo_bucket 2 2) = Inr (demo_bucket 2 0, []) \<and>
   ConcatenatedDataset_len (demo_bucket 2 0) = 0"
  by (simp add: ConcatenatedDataset_make_divisible_by_def ConcatenatedDataset_len_def
      demo_bucket_def)

subsection \<open>Trimming twice\<close>

lemma bucket_trim_again:
  assumes "ConcatenatedDataset_make_divisible_by is_main n self = Inr (self', lg)"
  shows "ConcatenatedDataset_make_divisible_by is_main n self' = Inr (self', lg)"
proof -
  let ?l = "ConcatenatedDataset_len self"
  let ?m = "(?l div n) * n"
  have n: "n \<noteq> 0"
    using assms by (auto simp: ConcatenatedDataset_make_divisible_by_def split: if_splits)
  have self': "self' = self\<lparr> iteration_order := take ?m (iteration_order self) \<rparr>"
    using assms n
    by (auto simp: ConcatenatedDataset_make_divisible_by_def Let_def split: if_splits list.splits)
  have "?m \<le> ?l" by simp
  then have len: "ConcatenatedDataset_len self' = ?m"
    by (simp add: self' ConcatenatedDataset_len_def)
  have again: "(ConcatenatedDataset_len self' div n) * n = ?m"
    using n by (simp add: len)
  have same: "self'\<lparr> iteration_order := take ?m (iteration_order self') \<rparr> = self'"
    by (simp add: self')
  show ?thesis
    using assms n unfolding ConcatenatedDataset_make_divisible_by_def Let_def again same
    by (auto simp: self' split: if_splits list.splits)
qed

lemma mapM_again:
  assumes "\<And>x y l. f x = Inr (y, l) \<Longrightarrow> f y = Inr (y, l)"
  shows "mapM f xs = Inr ys \<Longrightarrow> mapM f (map fst ys) = Inr ys"
proof (induction xs arbitrary: ys)
  case Nil
  then show ?case by simp
next
  case (Cons x xs)
  then show ?case
    by (auto split: sum.splits dest: assms)
qed

lemma dataset_trim_again:
  assumes "Dataset_make_divisible_by R is_main n self g = Inr (self', lg, g')"
  shows "Dataset_make_divisible_by R is_main n self' g' = Inr (self', lg, g')"
proof -
  obtain trimmed where
    t: "mapM (ConcatenatedDataset_make_divisible_by is_main n) (buckets self) = Inr trimmed"
    using assms by (auto simp: Dataset_make_divisible_by_def split: sum.splits)
  have b: "buckets self' = map fst trimmed" and g: "g' = g"
    using assms t
    by (auto simp: Dataset_make_divisible_by_def Let_def split: prod.splits
             dest: arg_cong [where f = snd] simp: snd_shuffle_with_seed)
  have t': "mapM (ConcatenatedDataset_make_divisible_by is_main n) (buckets self') = Inr trimmed"
    unfolding b using t by (rule mapM_again [rotated]) (rule bucket_trim_again)
  show ?thesis
    using assms t t' unfolding g
    by (auto simp: Dataset_make_divisible_by_def Let_def split: prod.splits)
qed

text \<open>
  Claim C10. Trimming is idempotent, for a bucket and for the top-level dataset: when a
  call of \<^verbatim>\<open>_make_divisible_by(n)\<close> returns, a second call right after it returns as
  well and leaves the object, its iteration order included, and the generator exactly as
  the first call left them. (A call returns for every \<open>n \<ge> 1\<close> on buckets that have a
  source dataset; the witness runs one.)
\<close>

theorem make_divisible_by_idempotent:
  "(ConcatenatedDataset_make_divisible_by is_main n bucket = Inr (bucket', lg1) \<longrightarrow>
      ConcatenatedDataset_make_divisible_by is_main n bucket' = Inr (bucket', lg1)) \<and>
   (Dataset_make_divisible_by R is_main n self g = Inr (self', lg, g') \<longrightarrow>
      Dataset_make_divisible_by R is_main n self' g' = Inr (self', lg, g'))"
proof (intro conjI impI)
  assume "ConcatenatedDataset_make_divisible_by is_main n bucket = Inr (bucket', lg1)"
  then show "ConcatenatedDataset_make_divisible_by is_main n bucket' = Inr (bucket', lg1)"
    by (rule bucket_trim_again)
next
  assume "Dataset_make_divisible_by R is_main n self g = Inr (self', lg, g')"
  then show "Dataset_make_divisible_by R is_main n self' g' = Inr (self', lg, g')"
    by (rule dataset_trim_again)
qed

theorem make_divisible_by_idempotent_witness:
  "ConcatenatedDataset_make_divisible_by True 3 (demo_bucket 7 7) = Inr (demo_bucket 7 6, []) \<and>
   ConcatenatedDataset_make_divisible_by True 3 (demo_bucket 7 6) = Inr (demo_bucket 7 6, []) \<and>
   Dataset_make_divisible_by rot_random True 3 (demo_dataset [(7, 7), (4, 4), (2, 2)]) (5::nat) =
     Inr ((demo_dataset [(7, 6), (4, 3), (2, 0)])\<lparr> selection_order := [0, 1, 0] \<rparr>,
          [WarnBucketDropped (512, 512)], 5) \<and>
   Dataset_make_divisible_by rot_random True 3
     ((demo_dataset [(7, 6), (4, 3), (2, 0)])\<lparr> selection_order := [0, 1, 0] \<rparr>) (5::nat) =
     Inr ((demo_dataset [(7, 6), (4, 3), (2, 0)])\<lparr> selection_order := [0, 1, 0] \<rparr>,
          [WarnBucketDropped (512, 512)], 5)"
proof -
  have a: "ConcatenatedDataset_make_divisible_by True 3 (demo_bucket 7 7) = Inr (demo_bucket 7 6, [])"
    by code_simp
  have b: "Dataset_make_divisible_by rot_random True 3
             (demo_dataset [(7, 7), (4, 4), (2, 2)]) (5::nat) =
           Inr ((demo_dataset [(7, 6), (4, 3), (2, 0)])\<lparr> selection_order := [0, 1, 0] \<rparr>,
                [WarnBucketDropped (512, 512)], 5)"
    by code_simp
  show ?thesis
    using make_divisible_by_idempotent
            [of True 3 "demo_bucket 7 7" "demo_bucket 7 6" "[]" rot_random
                "demo_dataset [(7, 7), (4, 4), (2, 2)]" 5
                "(demo_dataset [(7, 6), (4, 3), (2, 0)])\<lparr> selection_order := [0, 1, 0] \<rparr>"
                "[WarnBucketDropped (512, 512)]" 5]
          a b
    by simp
qed

subsection \<open>The fingerprinted cache\<close>

lemma map_of_filter_key:
  "map_of (filter (\<lambda>(k, v). P k) xs) k = (if P k then map_of xs k else None)"
  by (induction xs) auto

lemma glob_match_own: "glob_match prefix (prefix @ fp @ ''.arrow'')"
  by (simp add: glob_match_def)

lemma map_and_cache_hit:
  assumes "map_of (cache_files st)
             (cache_dir self, p @ hasher_hash H (fingerprint_args a d st) @ ''.arrow'') = Some col"
  shows "fst (map_and_cache H self d f p a st) =
           \<lparr> rows = col, fingerprint = hasher_hash H (fingerprint_args a d st) \<rparr>"
    and "fst (snd (map_and_cache H self d f p a st)) = [InfoCacheHit]"
    and "cache_files (snd (snd (map_and_cache H self d f p a st))) = cache_files st"
  using assms
  by (cases a; simp add: map_and_cache_def Let_def file_exists_def dataset_map_def)+

lemma map_and_cache_miss:
  assumes "map_of (cache_files st)
             (cache_dir self, p @ hasher_hash H (fingerprint_args a d st) @ ''.arrow'') = None"
  shows "fst (map_and_cache H self d f p a st) =
           \<lparr> rows = List.map_filter (\<lambda>r. fst (f r)) (rows d),
             fingerprint = hasher_hash H (fingerprint_args a d st) \<rparr>"
    and "fst (snd (map_and_cache H self d f p a st)) =
           InfoCacheMiss # concat (map (\<lambda>r. snd (f r)) (rows d))"
    and "map_of (cache_files (snd (snd (map_and_cache H self d f p a st)))) k =
           (if k = (cache_dir self, p @ hasher_hash H (fingerprint_args a d st) @ ''.arrow'')
            then Some (List.map_filter (\<lambda>r. fst (f r)) (rows d))
            else if fst k = cache_dir self \<and> glob_match p (snd k) then None
            else map_of (cache_files st) k)"
proof -
  let ?cf = "(cache_dir self, p @ hasher_hash H (fingerprint_args a d st) @ ''.arrow'')"
  have gone: "map_of (filter (\<lambda>(k, c). \<not> (fst k = cache_dir self \<and> glob_match p (snd k)))
                       (cache_files st)) ?cf = None"
    by (simp add: map_of_filter_key glob_match_own)
  show "fst (map_and_cache H self d f p a st) =
           \<lparr> rows = List.map_filter (\<lambda>r. fst (f r)) (rows d),
             fingerprint = hasher_hash H (fingerprint_args a d st) \<rparr>"
    using assms gone
    by (cases a; simp add: map_and_cache_def Let_def file_exists_def dataset_map_def
          unlink_glob_def)
  show "fst (snd (map_and_cache H self d f p a st)) =
           InfoCacheMiss # concat (map (\<lambda>r. snd (f r)) (rows d))"
    using assms gone
    by (cases a; simp add: map_and_cache_def Let_def file_exists_def dataset_map_def
          unlink_glob_def)
  show "map_of (cache_files (snd (snd (map_and_cache H self d f p a st)))) k =
           (if k = ?cf then Some (List.map_filter (\<lambda>r. fst (f r)) (rows d))
            else if fst k = cache_dir self \<and> glob_match p (snd k) then None
            else map_of (cache_files st) k)"
    using assms gone
    by (cases a; simp add: map_and_cache_def Let_def file_exists_def dataset_map_def
          unlink_glob_def write_file_def map_of_filter_key del: filter_filter)
qed

lemma map_and_cache_fingerprint:
  "fingerprint (fst (map_and_cache H self d f p a st)) = hasher_hash H (fingerprint_args a d st)"
  by (simp add: map_and_cache_def dataset_map_def Let_def split: prod.splits option.splits)

lemma map_and_cache_default_args:
  "default_fingerprint_args (snd (snd (map_and_cache H self d f p a st))) =
     (case a of None \<Rightarrow> fingerprint_args a d st | Some xs \<Rightarrow> default_fingerprint_args st)"
  by (simp add: map_and_cache_def dataset_map_def Let_def unlink_glob_def write_file_def
      split: prod.splits option.splits)

lemma cache_latents_fingerprint:
  "map_option fingerprint (latent_dataset (fst (cache_latents H C self st))) =
     Some (hasher_hash H (default_fingerprint_args st @
                            [ArgStr (fingerprint (image_file_and_caption_dataset self))]))"
  using map_and_cache_fingerprint
          [of H self "image_file_and_caption_dataset self"
              "process_image_fn C (size_bucket self)" "''latent_''" None st]
  by (auto simp: cache_latents_def fingerprint_args_def split: prod.splits)

lemma cache_latents_default_args:
  "default_fingerprint_args (snd (snd (cache_latents H C self st))) =
     default_fingerprint_args st @ [ArgStr (fingerprint (image_file_and_caption_dataset self))]"
  using map_and_cache_default_args
          [of H self "image_file_and_caption_dataset self"
              "process_image_fn C (size_bucket self)" "''latent_''" None st]
  by (auto simp: cache_latents_def fingerprint_args_def split: prod.splits)

text \<open>
  The sibling path passes a fresh list: the fingerprint of a text-embedding cache is the
  hash of the variant index and the base fingerprint, whatever happened before.
\<close>

lemma text_embedding_fingerprint_pure:
  "map (\<lambda>d. fingerprint d) (text_embedding_datasets (fst (cache_text_embedding H C i self st))) =
     map (\<lambda>d. fingerprint d) (text_embedding_datasets self) @
     [hasher_hash H [ArgInt (int i), ArgStr (fingerprint (image_file_and_caption_dataset self))]]"
  by (simp add: cache_text_embedding_def split_beta map_and_cache_fingerprint fingerprint_args_def)

text \<open>
  Claim C1 fails on the code. \<^verbatim>\<open>_cache_latents\<close> leaves \<^verbatim>\<open>new_fingerprint_args\<close> to
  its default, the one list object that every such call appends to: the fingerprint of a
  call hashes the base fingerprints of all earlier calls of the process before its own.
  From a fresh process, two calls on the same dataset hash \<open>[f0]\<close> and then \<open>[f0, f0]\<close>:
  two fingerprints for the same extra parameters and the same base fingerprint.
\<close>

theorem cache_latents_fingerprint_accumulates:
  "map_option fingerprint (latent_dataset (fst (cache_latents H C self st))) =
     Some (hasher_hash H (default_fingerprint_args st @
                            [ArgStr (fingerprint (image_file_and_caption_dataset self))])) \<and>
   default_fingerprint_args (snd (snd (cache_latents H C self st))) =
     default_fingerprint_args st @ [ArgStr (fingerprint (image_file_and_caption_dataset self))] \<and>
   map_option fingerprint (latent_dataset (fst
       (cache_latents demo_hf demo_collaborators (demo_bucket_dataset 2) fresh_process))) =
     Some ''f0-'' \<and>
   map_option fingerprint (latent_dataset (fst
       (cache_latents demo_hf demo_collaborators (demo_bucket_dataset 2)
          (snd (snd (cache_latents demo_hf demo_collaborators (demo_bucket_dataset 2)
                       fresh_process)))))) =
     Some ''f0-f0-''"
proof -
  note a = cache_latents_fingerprint and b = cache_latents_default_args
  have f0: "fingerprint (image_file_and_caption_dataset (demo_bucket_dataset 2)) = ''f0''"
    by (simp add: demo_bucket_dataset_def)
  have h1: "hasher_hash demo_hf [ArgStr ''f0''] = ''f0-''"
    by (simp add: demo_hf_def)
  have h2: "hasher_hash demo_hf [ArgStr ''f0'', ArgStr ''f0''] = ''f0-f0-''"
    by (simp add: demo_hf_def)
  have c: "map_option fingerprint (latent_dataset (fst
       (cache_latents demo_hf demo_collaborators (demo_bucket_dataset 2) fresh_process))) =
     Some ''f0-''"
    by (simp only: a f0 h1 fresh_process_def process_state.simps append_Nil)
  have d: "map_option fingerprint (latent_dataset (fst
       (cache_latents demo_hf demo_collaborators (demo_bucket_dataset 2)
          (snd (snd (cache_latents demo_hf demo_collaborators (demo_bucket_dataset 2)
                       fresh_process)))))) =
     Some ''f0-f0-''"
    by (simp only: a b f0 h2 fresh_process_def process_state.simps append_Nil append_Cons)
  show ?thesis by (intro conjI a b c d)
qed

text \<open>
  Claim C3. For every call of \<^verbatim>\<open>_map_and_cache\<close>: when the cache file named by the
  prefix and the computed fingerprint exists, the files on disk are left as they are and
  the column stored in that file is returned unchanged; otherwise the transform is applied
  to every row in order, the result is stored under the new name, and afterwards the new
  file is the only file of the cache directory that matches the prefix's glob, while files
  that do not match it (other transform kinds, other directories) are untouched. Either
  way the result carries the computed fingerprint.
\<close>

theorem map_and_cache_hit_or_regenerate:
  "(file_exists st (cache_dir self, prefix @ hasher_hash H (fingerprint_args args ds st) @ ''.arrow'') \<longrightarrow>
      cache_files (snd (snd (map_and_cache H self ds map_fn prefix args st))) = cache_files st \<and>
      Some (rows (fst (map_and_cache H self ds map_fn prefix args st))) =
        map_of (cache_files st)
          (cache_dir self, prefix @ hasher_hash H (fingerprint_args args ds st) @ ''.arrow'') \<and>
      fst (snd (map_and_cache H self ds map_fn prefix args st)) = [InfoCacheHit]) \<and>
   (\<not> file_exists st (cache_dir self, prefix @ hasher_hash H (fingerprint_args args ds st) @ ''.arrow'') \<longrightarrow>
      rows (fst (map_and_cache H self ds map_fn prefix args st)) =
        List.map_filter (\<lambda>r. fst (map_fn r)) (rows ds) \<and>
      map_of (cache_files (snd (snd (map_and_cache H self ds map_fn prefix args st))))
          (cache_dir self, prefix @ hasher_hash H (fingerprint_args args ds st) @ ''.arrow'') =
        Some (rows (fst (map_and_cache H self ds map_fn prefix args st))) \<and>
      (\<forall>name. glob_match prefix name \<and>
              file_exists (snd (snd (map_and_cache H self ds map_fn prefix args st)))
                (cache_dir self, name) \<longrightarrow>
              name = prefix @ hasher_hash H (fingerprint_args args ds st) @ ''.arrow'') \<and>
      (\<forall>f. \<not> (fst f = cache_dir self \<and> glob_match prefix (snd f)) \<longrightarrow>
           map_of (cache_files (snd (snd (map_and_cache H self ds map_fn prefix args st)))) f =
           map_of (cache_files st) f)) \<and>
   fingerprint (fst (map_and_cache H self ds map_fn prefix args st)) =
     hasher_hash H (fingerprint_args args ds st)"
proof -
  let ?cf = "(cache_dir self, prefix @ hasher_hash H (fingerprint_args args ds st) @ ''.arrow'')"
  let ?r = "map_and_cache H self ds map_fn prefix args st"
  show ?thesis
  proof (cases "map_of (cache_files st) ?cf")
    case None
    note m = map_and_cache_miss [OF None, of map_fn]
    note look = m(3)
    have "\<not> file_exists st ?cf" using None by (simp add: file_exists_def)
    moreover have "\<forall>name. glob_match prefix name \<and> file_exists (snd (snd ?r)) (cache_dir self, name)
                     \<longrightarrow> name = prefix @ hasher_hash H (fingerprint_args args ds st) @ ''.arrow''"
      by (auto simp: file_exists_def look split: if_splits)
    moreover have "\<forall>k. \<not> (fst k = cache_dir self \<and> glob_match prefix (snd k)) \<longrightarrow>
                     map_of (cache_files (snd (snd ?r))) k = map_of (cache_files st) k"
      by (auto simp: look glob_match_own)
    ultimately show ?thesis
      using look [of ?cf] by (simp add: m(1))
  next
    case (Some col)
    note h = map_and_cache_hit [OF Some, of map_fn]
    have "file_exists st ?cf" using Some by (simp add: file_exists_def)
    then show ?thesis
      using Some by (simp add: h)
  qed
qed


theorem map_and_cache_hit_or_regenerate_witness:
  "\<not> file_exists stale_process (''data/cache/cache_512x512'', ''latent_f0-.arrow'') \<and>
   map_and_cache demo_hf (demo_bucket_dataset 2) \<lparr> rows = demo_rows 2, fingerprint = ''f0'' \<rparr>
       (process_image_fn demo_collaborators (512, 512)) ''latent_'' (Some []) stale_process =
     (\<lparr> rows = [\<lparr> image_file = ''img0.png'', caption = ''a photo'', latents = Some 1024,
                    text_embedding = None \<rparr>], fingerprint = ''f0-'' \<rparr>,
      [InfoCacheMiss, WarnCannotOpen ''img1.png''],
      \<lparr> default_fingerprint_args = [],
        cache_files =
          [((''data/cache/cache_512x512'', ''latent_f0-.arrow''),
            [\<lparr> image_file = ''img0.png'', caption = ''a photo'', latents = Some 1024,
                text_embedding = None \<rparr>]),
           ((''data/cache/cache_512x512'', ''text_embedding_1_old.arrow''), []),
           ((''other/cache/cache_512x512'', ''latent_old.arrow''), [])] \<rparr>) \<and>
   file_exists (stale_process\<lparr> cache_files :=
                   ((''data/cache/cache_512x512'', ''latent_f0-.arrow''), []) #
                   cache_files stale_process \<rparr>)
     (''data/cache/cache_512x512'', ''latent_f0-.arrow'') \<and>
   map_and_cache demo_hf (demo_bucket_dataset 2) \<lparr> rows = demo_rows 2, fingerprint = ''f0'' \<rparr>
       (process_image_fn demo_collaborators (512, 512)) ''latent_'' (Some [])
       (stale_process\<lparr> cache_files :=
                   ((''data/cache/cache_512x512'', ''latent_f0-.arrow''), []) #
                   cache_files stale_process \<rparr>) =
     (\<lparr> rows = [], fingerprint = ''f0-'' \<rparr>, [InfoCacheHit],
      stale_process\<lparr> cache_files :=
                   ((''data/cache/cache_512x512'', ''latent_f0-.arrow''), []) #
                   cache_files stale_process \<rparr>)"
proof -
  let ?d = "\<lparr> rows = demo_rows 2, fingerprint = ''f0'' \<rparr> :: nat hf_dataset"
  let ?f = "process_image_fn demo_collaborators (512, 512)"
  let ?st = "stale_process\<lparr> cache_files :=
                   ((''data/cache/cache_512x512'', ''latent_f0-.arrow''), []) #
                   cache_files stale_process \<rparr>"
  have nm: "hasher_hash demo_hf (fingerprint_args (Some []) ?d st) = ''f0-''" for st :: "nat process_state"
    by (simp add: demo_hf_def fingerprint_args_def)
  have dir: "cache_dir (demo_bucket_dataset 2) = ''data/cache/cache_512x512''"
    by (simp add: demo_bucket_dataset_def)
  have miss: "\<not> file_exists stale_process (''data/cache/cache_512x512'', ''latent_f0-.arrow'')"
    by (simp add: file_exists_def stale_process_def)
  have hit: "file_exists ?st (''data/cache/cache_512x512'', ''latent_f0-.arrow'')"
    by (simp add: file_exists_def)
  have r1: "map_and_cache demo_hf (demo_bucket_dataset 2) ?d ?f ''latent_'' (Some []) stale_process =
     (\<lparr> rows = [\<lparr> image_file = ''img0.png'', caption = ''a photo'', latents = Some 1024,
                    text_embedding = None \<rparr>], fingerprint = ''f0-'' \<rparr>,
      [InfoCacheMiss, WarnCannotOpen ''img1.png''],
      \<lparr> default_fingerprint_args = [],
        cache_files =
          [((''data/cache/cache_512x512'', ''latent_f0-.arrow''),
            [\<lparr> image_file = ''img0.png'', caption = ''a photo'', latents = Some 1024,
                text_embedding = None \<rparr>]),
           ((''data/cache/cache_512x512'', ''text_embedding_1_old.arrow''), []),
           ((''other/cache/cache_512x512'', ''latent_old.arrow''), [])] \<rparr>)"
    by code_simp
  have r2: "map_and_cache demo_hf (demo_bucket_dataset 2) ?d ?f ''latent_'' (Some []) ?st =
     (\<lparr> rows = [], fingerprint = ''f0-'' \<rparr>, [InfoCacheHit], ?st)"
    by code_simp
  show ?thesis
    using map_and_cache_hit_or_regenerate
            [of stale_process "demo_bucket_dataset 2" "''latent_''" demo_hf "Some []" ?d ?f]
          map_and_cache_hit_or_regenerate
            [of ?st "demo_bucket_dataset 2" "''latent_''" demo_hf "Some []" ?d ?f]
          miss hit r1 r2
    by (simp add: nm dir)
qed

subsection \<open>The length of a bucket dataset\<close>

text \<open>
  Claim C6 fails on the code. \<^verbatim>\<open>__len__\<close> is the length of the caption dataset and
  never looks at a cached column, so caching leaves it as it was. With two samples, one
  of which cannot be opened while the latents are cached, the latent column has one row,
  the reported length is still 2, and reading index 1 raises \<^verbatim>\<open>IndexError\<close>.
\<close>

theorem len_ignores_dropped_samples:
  "SizeBucketDataset_len (fst (cache_latents H C self st)) = SizeBucketDataset_len self \<and>
   (let (s1, l1, st1) = cache_latents demo_hf demo_collaborators (demo_bucket_dataset 2) fresh_process
    in (map_option (\<lambda>d. length (rows d)) (latent_dataset s1), SizeBucketDataset_len s1, l1,
        SizeBucketDataset_getitem s1 0, SizeBucketDataset_getitem s1 1)) =
     (Some 1, 2, [InfoCacheMiss, WarnCannotOpen ''img1.png''], Inr [1024], Inl IndexError)"
proof -
  have a: "SizeBucketDataset_len (fst (cache_latents H C self st)) = SizeBucketDataset_len self"
    by (simp add: cache_latents_def SizeBucketDataset_len_def split: prod.splits)
  have b: "(let (s1, l1, st1) = cache_latents demo_hf demo_collaborators (demo_bucket_dataset 2) fresh_process
    in (map_option (\<lambda>d. length (rows d)) (latent_dataset s1), SizeBucketDataset_len s1, l1,
        SizeBucketDataset_getitem s1 0, SizeBucketDataset_getitem s1 1)) =
     (Some 1, 2, [InfoCacheMiss, WarnCannotOpen ''img1.png''], Inr [1024], Inl IndexError)"
    by code_simp
  show ?thesis by (intro conjI a b)
qed

subsection \<open>The epoch-tracking loader\<close>

lemma pull_spec:
  assumes "microbatches_of_pass gas batches = Inr todo"
  shows "(pending @ todo = [] \<longrightarrow>
            (\<exists>pulled'. pull_batches_from_dataloader gas pending batches pulled =
                          (Inl StopIteration, ([], []), pulled'))) \<and>
         (\<forall>mb rest. pending @ todo = mb # rest \<longrightarrow>
            (\<exists>pending' batches' pulled' todo'.
               pull_batches_from_dataloader gas pending batches pulled =
                 (Inr mb, (pending', batches'), pulled') \<and>
               microbatches_of_pass gas batches' = Inr todo' \<and>
               pending' @ todo' = rest))"
  using assms
proof (induction gas pending batches pulled arbitrary: todo
       rule: pull_batches_from_dataloader.induct)
  case (1 gas mb pending batches pulled)
  then show ?case by auto
next
  case (2 gas pulled)
  then show ?case by (auto simp: microbatches_of_pass_def)
next
  case (3 gas batch batches pulled)
  from "3.prems" obtain mbs todo' where
    s: "split_batch batch gas = Inr mbs" and
    m: "microbatches_of_pass gas batches = Inr todo'" and
    e: "todo = mbs @ todo'"
    by (auto simp: microbatches_of_pass_def split: sum.splits)
  from "3.IH" [OF s m] show ?case
    by (simp add: s e)
qed

lemma next_within_pass:
  assumes inv: "microbatches_of_pass (gradient_accumulation_steps self) (snd (data self)) = Inr todo"
    and some: "fst (data self) @ todo = mb # rest"
  shows "\<exists>self' todo'. PipelineDataLoader_next self = (Inr mb, self') \<and>
           epoch self' = epoch self \<and> dataset self' = dataset self \<and>
           gradient_accumulation_steps self' = gradient_accumulation_steps self \<and>
           microbatches_of_pass (gradient_accumulation_steps self') (snd (data self')) = Inr todo' \<and>
           fst (data self') @ todo' = rest"
proof -
  from pull_spec [OF inv, of "fst (data self)" "num_batches_pulled self"] some
  obtain pending' batches' pulled' todo' where
    p: "pull_batches_from_dataloader (gradient_accumulation_steps self) (fst (data self))
          (snd (data self)) (num_batches_pulled self) =
        (Inr mb, (pending', batches'), pulled')" and
    m: "microbatches_of_pass (gradient_accumulation_steps self) batches' = Inr todo'" and
    r: "pending' @ todo' = rest"
    by blast
  show ?thesis
    using m r by (simp add: PipelineDataLoader_next_def next_data_def p)
qed

lemma next_new_pass:
  assumes inv: "microbatches_of_pass (gradient_accumulation_steps self) (snd (data self)) = Inr todo"
    and none: "fst (data self) @ todo = []"
    and pass: "microbatches_of_pass (gradient_accumulation_steps self) (dataset self) = Inr (mb # rest)"
  shows "\<exists>self' todo'. PipelineDataLoader_next self = (Inr mb, self') \<and>
           epoch self' = epoch self + 1 \<and> dataset self' = dataset self \<and>
           gradient_accumulation_steps self' = gradient_accumulation_steps self \<and>
           microbatches_of_pass (gradient_accumulation_steps self') (snd (data self')) = Inr todo' \<and>
           fst (data self') @ todo' = rest"
proof -
  from pull_spec [OF inv, of "fst (data self)" "num_batches_pulled self"] none
  obtain pulled1 where
    p: "pull_batches_from_dataloader (gradient_accumulation_steps self) (fst (data self))
          (snd (data self)) (num_batches_pulled self) = (Inl StopIteration, ([], []), pulled1)"
    by blast
  from pull_spec [OF pass, of "[]" 0]
  obtain pending' batches' pulled' todo' where
    q: "pull_batches_from_dataloader (gradient_accumulation_steps self) [] (dataset self) 0 =
        (Inr mb, (pending', batches'), pulled')" and
    m: "microbatches_of_pass (gradient_accumulation_steps self) batches' = Inr todo'" and
    r: "pending' @ todo' = rest"
    by auto
  show ?thesis
    using m r
    by (simp add: PipelineDataLoader_next_def next_data_def p q create_dataloader_def)
qed

lemma next_empty_pass:
  assumes inv: "microbatches_of_pass (gradient_accumulation_steps self) (snd (data self)) = Inr todo"
    and none: "fst (data self) @ todo = []"
    and pass: "microbatches_of_pass (gradient_accumulation_steps self) (dataset self) = Inr []"
  shows "\<exists>self'. PipelineDataLoader_next self = (Inl StopIteration, self') \<and>
           epoch self' = epoch self \<and> dataset self' = dataset self \<and>
           gradient_accumulation_steps self' = gradient_accumulation_steps self \<and>
           data self' = ([], [])"
proof -
  from pull_spec [OF inv, of "fst (data self)" "num_batches_pulled self"] none
  obtain pulled1 where
    p: "pull_batches_from_dataloader (gradient_accumulation_steps self) (fst (data self))
          (snd (data self)) (num_batches_pulled self) = (Inl StopIteration, ([], []), pulled1)"
    by blast
  from pull_spec [OF pass, of "[]" 0]
  obtain pulled2 where
    q: "pull_batches_from_dataloader (gradient_accumulation_steps self) [] (dataset self) 0 =
        (Inl StopIteration, ([], []), pulled2)"
    by auto
  show ?thesis
    by (simp add: PipelineDataLoader_next_def next_data_def p q create_dataloader_def)
qed

lemma next_calls_from:
  assumes pass: "microbatches_of_pass (gradient_accumulation_steps self) (dataset self) = Inr pass"
    and ne: "pass \<noteq> []"
    and inv: "microbatches_of_pass (gradient_accumulation_steps self) (snd (data self)) = Inr todo"
    and pos: "fst (data self) @ todo = drop r pass" and r: "r \<le> length pass"
  shows "\<exists>self'. next_calls k self =
             (Inr (map (\<lambda>j. pass ! ((r + j) mod length pass)) [0..<k]), self') \<and>
           epoch self' = epoch self + (r + k - 1) div length pass"
  using pass inv pos r
proof (induction k arbitrary: self todo r)
  case 0
  then show ?case by (cases "r = 0") (simp_all add: Suc_leI)
next
  case (Suc k)
  let ?L = "length pass"
  have L: "0 < ?L" using ne by simp
  have shift: "map (\<lambda>j. pass ! ((r + j) mod ?L)) [0..<Suc k] =
        pass ! (r mod ?L) # map (\<lambda>j. pass ! ((Suc r + j) mod ?L)) [0..<k]" for r
    by (simp add: upt_conv_Cons map_Suc_upt [symmetric] del: upt_Suc)
  show ?case
  proof (cases "r < ?L")
    case True
    then have d: "drop r pass = pass ! r # drop (Suc r) pass"
      by (simp add: Cons_nth_drop_Suc)
    from next_within_pass [OF Suc.prems(2)] Suc.prems(3) d
    obtain self' todo' where
      n: "PipelineDataLoader_next self = (Inr (pass ! r), self')" and
      e: "epoch self' = epoch self" and ds: "dataset self' = dataset self" and
      g: "gradient_accumulation_steps self' = gradient_accumulation_steps self" and
      i: "microbatches_of_pass (gradient_accumulation_steps self') (snd (data self')) = Inr todo'" and
      p: "fst (data self') @ todo' = drop (Suc r) pass"
      by metis
    have pass': "microbatches_of_pass (gradient_accumulation_steps self') (dataset self') = Inr pass"
      using Suc.prems(1) by (simp add: ds g)
    from Suc.IH [OF pass' i p] True
    obtain self'' where
      c: "next_calls k self' =
            (Inr (map (\<lambda>j. pass ! ((Suc r + j) mod ?L)) [0..<k]), self'')" and
      e': "epoch self'' = epoch self' + (Suc r + k - 1) div ?L"
      by auto
    show ?thesis
      using True by (simp add: n c shift e e' del: upt_Suc)
  next
    case False
    with Suc.prems(4) have rL: "r = ?L" by simp
    obtain mb rest where pr: "pass = mb # rest" using ne by (cases pass) auto
    have none: "fst (data self) @ todo = []" using Suc.prems(3) rL by simp
    from next_new_pass [OF Suc.prems(2) none] Suc.prems(1) pr
    obtain self' todo' where
      n: "PipelineDataLoader_next self = (Inr mb, self')" and
      e: "epoch self' = epoch self + 1" and ds: "dataset self' = dataset self" and
      g: "gradient_accumulation_steps self' = gradient_accumulation_steps self" and
      i: "microbatches_of_pass (gradient_accumulation_steps self') (snd (data self')) = Inr todo'" and
      p: "fst (data self') @ todo' = drop (Suc 0) pass"
      by (metis drop0 drop_Suc_Cons)
    have pass': "microbatches_of_pass (gradient_accumulation_steps self') (dataset self') = Inr pass"
      using Suc.prems(1) by (simp add: ds g)
    have one: "Suc 0 \<le> ?L" using L by (simp add: Suc_leI)
    from Suc.IH [OF pass' i p one]
    obtain self'' where
      c: "next_calls k self' =
            (Inr (map (\<lambda>j. pass ! ((Suc 0 + j) mod ?L)) [0..<k]), self'')" and
      e': "epoch self'' = epoch self' + (Suc 0 + k - 1) div ?L"
      by auto
    have same: "map (\<lambda>j. pass ! ((Suc 0 + j) mod ?L)) [0..<k] =
                map (\<lambda>j. pass ! ((Suc r + j) mod ?L)) [0..<k]"
      by (simp add: rL mod_Suc)
    have ep: "epoch self + 1 + (Suc 0 + k - 1) div ?L = epoch self + (r + Suc k - 1) div ?L"
      using L by (simp add: rL div_add_self1)
    have hd: "pass ! (r mod ?L) = mb" by (simp add: rL pr)
    have calls: "next_calls (Suc k) self =
            (Inr (mb # map (\<lambda>j. pass ! ((Suc r + j) mod ?L)) [0..<k]), self'')"
      using c unfolding same by (simp add: n)
    have "epoch self'' = epoch self + (r + Suc k - 1) div ?L"
      using e e' ep by simp
    with calls show ?thesis
      unfolding shift [of r] hd by blast
  qed
qed

lemma init_fields:
  "epoch (PipelineDataLoader_init ds gas) = 1"
  "gradient_accumulation_steps (PipelineDataLoader_init ds gas) = gas"
  "dataset (PipelineDataLoader_init ds gas) = ds"
  "data (PipelineDataLoader_init ds gas) = ([], ds)"
  by (simp_all add: PipelineDataLoader_init_def reset_def create_dataloader_def)

lemma next_calls_fresh:
  assumes "microbatches_of_pass gas ds = Inr pass" and "pass \<noteq> []"
  shows "\<exists>self'. next_calls k (PipelineDataLoader_init ds gas) =
             (Inr (map (\<lambda>j. pass ! (j mod length pass)) [0..<k]), self') \<and>
           epoch self' = 1 + (k - 1) div length pass"
proof -
  let ?s = "PipelineDataLoader_init ds gas"
  have 1: "microbatches_of_pass (gradient_accumulation_steps ?s) (dataset ?s) = Inr pass"
    using assms(1) by (simp add: init_fields)
  have 2: "microbatches_of_pass (gradient_accumulation_steps ?s) (snd (data ?s)) = Inr pass"
    using assms(1) by (simp add: init_fields)
  have 3: "fst (data ?s) @ pass = drop 0 pass" by (simp add: init_fields)
  from next_calls_from [OF 1 assms(2) 2 3, of k] show ?thesis
    by (simp add: init_fields)
qed

lemma next_fresh_empty:
  assumes "microbatches_of_pass gas ds = Inr []"
  shows "\<exists>self'. PipelineDataLoader_next (PipelineDataLoader_init ds gas) =
                    (Inl StopIteration, self') \<and> epoch self' = 1"
proof -
  let ?s = "PipelineDataLoader_init ds gas"
  have 1: "microbatches_of_pass (gradient_accumulation_steps ?s) (dataset ?s) = Inr []"
    using assms by (simp add: init_fields)
  have 2: "microbatches_of_pass (gradient_accumulation_steps ?s) (snd (data ?s)) = Inr []"
    using assms by (simp add: init_fields)
  have 3: "fst (data ?s) @ [] = []" by (simp add: init_fields)
  from next_empty_pass [OF 2 3 1] show ?thesis
    by (auto simp: init_fields)
qed

lemma length_chunks:
  "0 < m \<Longrightarrow> length xs = n * m \<Longrightarrow> length (chunks m xs) = n"
proof (induction n arbitrary: xs)
  case 0
  then show ?case by (simp add: chunks.simps [of m "[]"])
next
  case (Suc n)
  then have "xs \<noteq> []" by auto
  moreover have "length (drop m xs) = n * m" using Suc.prems by simp
  ultimately show ?case
    using Suc.IH [of "drop m xs"] Suc.prems(1) by (simp add: chunks.simps [of m xs])
qed

lemma mapM_total:
  "(\<And>x. x \<in> set xs \<Longrightarrow> f x = Inr (g x)) \<Longrightarrow> mapM f xs = Inr (map g xs)"
  by (induction xs) auto

lemma min_list_const:
  "xs \<noteq> [] \<Longrightarrow> (\<And>x. x \<in> set xs \<Longrightarrow> x = c) \<Longrightarrow> min_list xs = (c::nat)"
proof (induction xs)
  case Nil
  then show ?case by simp
next
  case (Cons x xs)
  have x: "x = c" using Cons.prems(2) [of x] by simp
  show ?case
  proof (cases xs)
    case Nil
    then show ?thesis by (simp add: x)
  next
    case (Cons y ys)
    then have "xs \<noteq> []" by simp
    moreover have "\<And>z. z \<in> set xs \<Longrightarrow> z = c"
      using Cons.prems(2) by (simp del: min_list.simps)
    ultimately have "min_list xs = c" by (rule Cons.IH)
    then show ?thesis
      unfolding Cons by (simp add: x)
  qed
qed

lemma length_split_batch:
  assumes "batch \<noteq> []" and "\<And>t. t \<in> set batch \<Longrightarrow> length t = gas * m"
    and "0 < m" and "0 < gas"
  shows "\<exists>mbs. split_batch batch gas = Inr mbs \<and> length mbs = gas"
proof -
  obtain first others where b: "batch = first # others"
    using assms(1) by (cases batch) auto
  have sz: "length first div gas = m"
    using assms(2) [of first] assms(4) by (simp add: b)
  have sp: "torch_split t m = Inr (chunks m t)" if "t \<in> set batch" for t
    using assms(2) [OF that] assms(3,4) by (auto simp: torch_split_def)
  have mp: "mapM (\<lambda>tensor. torch_split tensor m) batch = Inr (map (chunks m) batch)"
    by (rule mapM_total) (rule sp)
  have ln: "min_list (map (length \<circ> chunks m) batch) = gas"
  proof (rule min_list_const)
    show "map (length \<circ> chunks m) batch \<noteq> []" using assms(1) by simp
  next
    fix x assume "x \<in> set (map (length \<circ> chunks m) batch)"
    then obtain t where "t \<in> set batch" and "x = length (chunks m t)" by auto
    then show "x = gas" using length_chunks [OF assms(3) assms(2)] by simp
  qed
  have "split_batch batch gas =
          Inr (map (\<lambda>ex. (ex, None)) (collate (map (chunks m) batch)))"
    using assms(4) mp unfolding split_batch_def b [symmetric]
    by (simp add: b sz [unfolded b] Let_def)
  moreover have "length (collate (map (chunks m) batch)) = gas"
    using assms(1) by (simp add: collate_def ln)
  ultimately show ?thesis by simp
qed

lemma length_microbatches_of_pass:
  assumes "\<And>b. b \<in> set ds \<Longrightarrow> b \<noteq> [] \<and> (\<exists>m>0. \<forall>t\<in>set b. length t = gas * m)"
    and "0 < gas"
  shows "\<exists>pass. microbatches_of_pass gas ds = Inr pass \<and> length pass = gas * length ds"
  using assms(1)
proof (induction ds)
  case Nil
  then show ?case by (simp add: microbatches_of_pass_def)
next
  case (Cons b ds)
  from Cons.prems [of b] obtain m where
    "b \<noteq> []" and "0 < m" and "\<And>t. t \<in> set b \<Longrightarrow> length t = gas * m"
    by auto
  from length_split_batch [OF this(1) this(3) this(2) assms(2)]
  obtain mbs where s: "split_batch b gas = Inr mbs" and l: "length mbs = gas" by blast
  from Cons.IH Cons.prems
  obtain pass where p: "microbatches_of_pass gas ds = Inr pass" and lp: "length pass = gas * length ds"
    by auto
  show ?case
    using s l p lp by (auto simp: microbatches_of_pass_def split: sum.splits)
qed

text \<open>
  Claim C7, as the code has it. The epoch counter of every loader starts at 1. When one
  pass over the dataset yields the microbatches \<open>pass\<close> and at least one, the calls of
  \<^verbatim>\<open>next\<close> return them in order, pass after pass, and after call number \<open>k + 1\<close>
  the epoch is \<open>1 + k div length pass\<close>: it goes up by one exactly at the call that
  finds the generator exhausted, which returns the first microbatch of the new pass. When
  a pass yields no microbatch, \<^verbatim>\<open>next\<close> raises \<^verbatim>\<open>StopIteration\<close> and leaves the
  epoch at 1. Over two batches, in each of which all tensors have one leading dimension,
  a positive multiple of 2, and with 2 accumulation steps, the epoch is 1 after each of
  the first four calls and 2 after the fifth.
\<close>

theorem epoch_increments_on_exhaustion:
  "epoch (PipelineDataLoader_init ds gas) = 1 \<and>
   (microbatches_of_pass gas ds = Inr pass \<and> pass \<noteq> [] \<longrightarrow>
      (\<forall>k. \<exists>self'. next_calls (Suc k) (PipelineDataLoader_init ds gas) =
               (Inr (map (\<lambda>j. pass ! (j mod length pass)) [0..<Suc k]), self') \<and>
             epoch self' = 1 + k div length pass)) \<and>
   (microbatches_of_pass gas ds = Inr [] \<longrightarrow>
      (\<exists>self'. PipelineDataLoader_next (PipelineDataLoader_init ds gas) =
                  (Inl StopIteration, self') \<and> epoch self' = 1)) \<and>
   (gas = 2 \<and> length ds = 2 \<and>
    (\<forall>b\<in>set ds. b \<noteq> [] \<and> (\<exists>m>0. \<forall>t\<in>set b. length t = 2 * m)) \<longrightarrow>
      (\<forall>k<4. \<exists>mbs self'. next_calls (Suc k) (PipelineDataLoader_init ds gas) = (Inr mbs, self') \<and>
                epoch self' = 1) \<and>
      (\<exists>mbs self'. next_calls 5 (PipelineDataLoader_init ds gas) = (Inr mbs, self') \<and>
                epoch self' = 2))"
proof (intro conjI allI impI)
  show "epoch (PipelineDataLoader_init ds gas) = 1"
    by (rule init_fields)
next
  fix k
  assume "microbatches_of_pass gas ds = Inr pass \<and> pass \<noteq> []"
  then have a: "microbatches_of_pass gas ds = Inr pass" and b: "pass \<noteq> []" by auto
  from next_calls_fresh [OF a b, of "Suc k"]
  show "\<exists>self'. next_calls (Suc k) (PipelineDataLoader_init ds gas) =
             (Inr (map (\<lambda>j. pass ! (j mod length pass)) [0..<Suc k]), self') \<and>
           epoch self' = 1 + k div length pass"
    by simp
next
  assume "microbatches_of_pass gas ds = Inr []"
  then show "\<exists>self'. PipelineDataLoader_next (PipelineDataLoader_init ds gas) =
                  (Inl StopIteration, self') \<and> epoch self' = 1"
    by (rule next_fresh_empty)
next
  assume ex: "gas = 2 \<and> length ds = 2 \<and>
    (\<forall>b\<in>set ds. b \<noteq> [] \<and> (\<exists>m>0. \<forall>t\<in>set b. length t = 2 * m))"
  then have "\<exists>p. microbatches_of_pass gas ds = Inr p \<and> length p = gas * length ds"
    by (intro length_microbatches_of_pass) auto
  with ex obtain p where a: "microbatches_of_pass gas ds = Inr p" and L: "length p = 4"
    by auto
  then have b: "p \<noteq> []" by auto
  {
    fix k :: nat
    assume "k < 4"
    with next_calls_fresh [OF a b, of "Suc k"] L
    show "\<exists>mbs self'. next_calls (Suc k) (PipelineDataLoader_init ds gas) = (Inr mbs, self') \<and>
                 epoch self' = 1"
      by auto
  }
  from next_calls_fresh [OF a b, of 5] L
  show "\<exists>mbs self'. next_calls 5 (PipelineDataLoader_init ds gas) = (Inr mbs, self') \<and>
                 epoch self' = 2"
    by auto
qed

text \<open>
  Two batches of one tensor with four rows each and 2 accumulation steps: four
  microbatches per pass, epoch 1 after four calls, epoch 2 after the fifth, which returns
  the first microbatch again. Over no batch at all the call raises and the epoch stays 1.
\<close>

theorem epoch_increments_on_exhaustion_witness:
  "microbatches_of_pass 2 [[[1, 2, 3, 4::nat]], [[5, 6, 7, 8]]] =
     Inr [([[1, 2]], None), ([[3, 4]], None), ([[5, 6]], None), ([[7, 8]], None)] \<and>
   epoch (PipelineDataLoader_init [[[1, 2, 3, 4::nat]], [[5, 6, 7, 8]]] 2) = 1 \<and>
   map_prod id epoch
     (next_calls 4 (PipelineDataLoader_init [[[1, 2, 3, 4::nat]], [[5, 6, 7, 8]]] 2)) =
     (Inr [([[1, 2]], None), ([[3, 4]], None), ([[5, 6]], None), ([[7, 8]], None)], 1) \<and>
   map_prod id epoch
     (next_calls 5 (PipelineDataLoader_init [[[1, 2, 3, 4::nat]], [[5, 6, 7, 8]]] 2)) =
     (Inr [([[1, 2]], None), ([[3, 4]], None), ([[5, 6]], None), ([[7, 8]], None),
           ([[1, 2]], None)], 2) \<and>
   microbatches_of_pass 2 ([] :: nat list list list) = Inr [] \<and>
   map_prod id epoch (PipelineDataLoader_next (PipelineDataLoader_init ([] :: nat list list list) 2)) =
     (Inl StopIteration, 1)"
proof -
  let ?ds = "[[[1, 2, 3, 4::nat]], [[5, 6, 7, 8]]]"
  let ?pass = "[([[1, 2::nat]], None), ([[3, 4]], None), ([[5, 6]], None), ([[7, 8]], None)]"
  have a: "microbatches_of_pass 2 ?ds = Inr ?pass"
    by code_simp
  have b: "?pass \<noteq> []" by simp
  have sh: "(2::nat) = 2 \<and> length ?ds = 2 \<and>
            (\<forall>b\<in>set ?ds. b \<noteq> [] \<and> (\<exists>m>0. \<forall>t\<in>set b. length t = 2 * m))"
    by (auto intro: exI [of _ 2])
  have e0: "microbatches_of_pass 2 ([] :: nat list list list) = Inr []"
    by (simp add: microbatches_of_pass_def)
  note t = epoch_increments_on_exhaustion [of ?ds 2 ?pass]
  have t1: "epoch (PipelineDataLoader_init ?ds 2) = 1"
    using t by (rule conjunct1)
  note t2 = t [THEN conjunct2, THEN conjunct1, THEN mp, OF conjI [OF a b],
               THEN spec [where x = 4]]
  note t4 = t [THEN conjunct2, THEN conjunct2, THEN conjunct2, THEN mp, OF sh, THEN conjunct2]
  note t3 = epoch_increments_on_exhaustion
              [of "[] :: nat list list list" 2 "[]",
               THEN conjunct2, THEN conjunct2, THEN conjunct1, THEN mp, OF e0]
  have c: "map_prod id epoch (next_calls 4 (PipelineDataLoader_init ?ds 2)) = (Inr ?pass, 1)"
    by code_simp
  have d: "map_prod id epoch (next_calls 5 (PipelineDataLoader_init ?ds 2)) =
     (Inr (?pass @ [([[1, 2]], None)]), 2)"
    by code_simp
  have f: "map_prod id epoch
             (PipelineDataLoader_next (PipelineDataLoader_init ([] :: nat list list list) 2)) =
           (Inl StopIteration, 1)"
    using t3 by auto
  from t2 t4 show ?thesis using a t1 c d e0 f by simp
qed

text \<open>
  The claim as the specification states it fails over a dataset that yields no batch (every
  bucket dropped): the call rebuilds the iterator, finds it exhausted again and raises
  \<^verbatim>\<open>StopIteration\<close>; no microbatch is returned, and the loader is left as it was
  built, its epoch still 1.
\<close>

theorem next_on_empty_dataset_raises:
  "PipelineDataLoader_next (PipelineDataLoader_init ([] :: nat list list list) 2) =
     (Inl StopIteration, PipelineDataLoader_init [] 2) \<and>
   epoch (PipelineDataLoader_init ([] :: nat list list list) 2) = 1"
  by (simp add: PipelineDataLoader_next_def PipelineDataLoader_init_def reset_def
      create_dataloader_def next_data_def)

subsection \<open>Errors of the directory scan\<close>















subsection \<open>Iteration after post_init\<close>

text \<open>
  The interleave index of a bucket: source \<open>j\<close> occurs in it as often as it has samples.
\<close>

lemma set_extend_from:
  "j \<in> set (concat (map (\<lambda>(i, c). replicate c i) (enumerate n counts))) \<Longrightarrow>
     n \<le> j \<and> j < n + length counts"
proof (induction counts arbitrary: n)
  case Nil
  then show ?case by simp
next
  case (Cons c counts)
  from Cons.prems have "j \<in> set (replicate c n) \<or>
      j \<in> set (concat (map (\<lambda>(i, c). replicate c i) (enumerate (Suc n) counts)))"
    by simp
  then show ?case
  proof
    assume "j \<in> set (replicate c n)"
    then have "j = n" by (auto split: if_splits)
    then show ?thesis by simp
  next
    assume "j \<in> set (concat (map (\<lambda>(i, c). replicate c i) (enumerate (Suc n) counts)))"
    from Cons.IH [OF this] show ?thesis by simp
  qed
qed

lemma count_extend_from:
  "count_list (concat (map (\<lambda>(i, c). replicate c i) (enumerate n counts))) j =
     (if n \<le> j \<and> j < n + length counts then counts ! (j - n) else 0)"
proof (induction counts arbitrary: n)
  case Nil
  then show ?case by simp
next
  case (Cons c counts)
  have r: "count_list (replicate c n) j = (if j = n then c else 0)"
    by (induction c) auto
  have d: "(c # counts) ! (j - n) = counts ! (j - Suc n)" if "Suc n \<le> j"
  proof -
    from that have "j - n = Suc (j - Suc n)" by arith
    then show ?thesis by simp
  qed
  show ?case
    using Cons.IH [of "Suc n"] d
    by (auto simp: r)
qed

lemma set_extend_indices: "j \<in> set (extend_indices counts) \<Longrightarrow> j < length counts"
  using set_extend_from [of j 0 counts] by (simp add: extend_indices_def)

lemma count_extend_indices:
  "count_list (extend_indices counts) j = (if j < length counts then counts ! j else 0)"
  using count_extend_from [of 0 counts j] by (simp add: extend_indices_def)

lemma count_list_mset: "mset xs = mset ys \<Longrightarrow> count_list xs j = count_list ys j"
  by (metis count_mset)

lemma count_list_take_le: "count_list (take m xs) j \<le> count_list xs j"
proof -
  have "count_list xs j = count_list (take m xs) j + count_list (drop m xs) j"
    by (metis append_take_drop_id count_list_append)
  then show ?thesis by simp
qed

lemma mapM_nth:
  "mapM f xs = Inr ys \<Longrightarrow> length ys = length xs \<and> (\<forall>i<length xs. f (xs ! i) = Inr (ys ! i))"
proof (induction xs arbitrary: ys)
  case Nil
  then show ?case by simp
next
  case (Cons x xs)
  then obtain y ys' where y: "f x = Inr y" and m: "mapM f xs = Inr ys'" and e: "ys = y # ys'"
    by (auto split: sum.splits)
  from Cons.IH [OF m] show ?case
    by (auto simp: e y nth_Cons split: nat.splits)
qed

lemma trim_shape:
  assumes "ConcatenatedDataset_make_divisible_by is_main n c = Inr (c', lg)"
  shows "n \<noteq> 0" and "datasets c' = datasets c"
    and "iteration_order c' = take ((ConcatenatedDataset_len c div n) * n) (iteration_order c)"
  using assms
  by (auto simp: ConcatenatedDataset_make_divisible_by_def Let_def split: if_splits list.splits)

lemma pull_length:
  "pull_examples c n it = Inr (xs, it') \<Longrightarrow> length xs = n"
  by (induction n arbitrary: it xs) (auto split: sum.splits prod.splits)

lemma pull_append:
  "pull_examples c (m + n) it =
     (case pull_examples c m it of
        Inl e \<Rightarrow> Inl e
      | Inr (xs, it1) \<Rightarrow>
          (case pull_examples c n it1 of
             Inl e \<Rightarrow> Inl e
           | Inr (ys, it2) \<Rightarrow> Inr (xs @ ys, it2)))"
  by (induction m arbitrary: it) (auto split: sum.splits prod.splits)

lemma pull_split:
  assumes "pull_examples c (m + n) it = Inr (S, it2)"
  shows "\<exists>it1. pull_examples c m it = Inr (take m S, it1) \<and>
               pull_examples c n it1 = Inr (drop m S, it2)"
proof -
  from assms obtain xs it1 ys where
    a: "pull_examples c m it = Inr (xs, it1)" and
    b: "pull_examples c n it1 = Inr (ys, it2)" and S: "S = xs @ ys"
    by (auto simp: pull_append split: sum.splits prod.splits)
  from pull_length [OF a] have "take m S = xs" "drop m S = ys" by (simp_all add: S)
  with a b show ?thesis by auto
qed

lemma next_ok:
  assumes rd: "\<forall>ds\<in>set (datasets c). readable ds"
    and i: "i < length (datasets c)" and len: "length idxs = length (datasets c)"
    and k: "idxs ! i < SizeBucketDataset_len (datasets c ! i)"
  shows "\<exists>x. ConcatenatedDataset_next c (i # rest, idxs) = Inr (x, (rest, idxs[i := Suc (idxs ! i)]))"
proof -
  from rd i have "readable (datasets c ! i)" by simp
  with k obtain x where x: "SizeBucketDataset_getitem (datasets c ! i) (idxs ! i) = Inr x"
    unfolding readable_def by blast
  have "SizeBucketDataset_next (datasets c ! i) (idxs ! i) = Inr (x, Suc (idxs ! i))"
    using k x by (simp add: SizeBucketDataset_next_def)
  then have "ConcatenatedDataset_next c (i # rest, idxs) = Inr (x, (rest, idxs[i := Suc (idxs ! i)]))"
    using i len by (simp add: ConcatenatedDataset_next_def)
  then show ?thesis by blast
qed

lemma pull_ok:
  assumes rd: "\<forall>ds\<in>set (datasets c). readable ds"
  shows "n \<le> length rest \<Longrightarrow> length idxs = length (datasets c) \<Longrightarrow>
         \<forall>j\<in>set rest. j < length (datasets c) \<Longrightarrow>
         \<forall>j<length (datasets c). idxs ! j + count_list rest j \<le> SizeBucketDataset_len (datasets c ! j) \<Longrightarrow>
         \<exists>xs it'. pull_examples c n (rest, idxs) = Inr (xs, it')"
proof (induction n arbitrary: rest idxs)
  case 0
  then show ?case by simp
next
  case (Suc n)
  from Suc.prems(1) obtain i rest' where rest: "rest = i # rest'"
    by (cases rest) auto
  from Suc.prems(3) have i: "i < length (datasets c)" by (simp add: rest)
  from Suc.prems(4) i have "idxs ! i + count_list rest i \<le> SizeBucketDataset_len (datasets c ! i)"
    by blast
  then have k: "idxs ! i < SizeBucketDataset_len (datasets c ! i)"
    by (simp add: rest)
  from next_ok [OF rd i Suc.prems(2) k, of rest'] obtain x where
    x: "ConcatenatedDataset_next c (i # rest', idxs) = Inr (x, (rest', idxs[i := Suc (idxs ! i)]))"
    by blast
  have a: "n \<le> length rest'" using Suc.prems(1) by (simp add: rest)
  have b: "length (idxs[i := Suc (idxs ! i)]) = length (datasets c)"
    using Suc.prems(2) by simp
  have c': "\<forall>j\<in>set rest'. j < length (datasets c)"
    using Suc.prems(3) by (simp add: rest)
  have d: "\<forall>j<length (datasets c).
      (idxs[i := Suc (idxs ! i)]) ! j + count_list rest' j \<le> SizeBucketDataset_len (datasets c ! j)"
  proof (intro allI impI)
    fix j assume j: "j < length (datasets c)"
    from Suc.prems(4) j have
      e: "idxs ! j + count_list rest j \<le> SizeBucketDataset_len (datasets c ! j)" by blast
    show "(idxs[i := Suc (idxs ! i)]) ! j + count_list rest' j \<le> SizeBucketDataset_len (datasets c ! j)"
    proof (cases "j = i")
      case True
      then show ?thesis using e i Suc.prems(2) by (simp add: rest)
    next
      case False
      then show ?thesis using e by (simp add: rest)
    qed
  qed
  from Suc.IH [OF a b c' d] obtain xs it' where
    "pull_examples c n (rest', idxs[i := Suc (idxs ! i)]) = Inr (xs, it')" by blast
  with x show ?case by (simp add: rest)
qed

lemma bucket_samples_ok:
  assumes "iterable c"
  shows "\<exists>S. bucket_samples c = Inr S \<and> length S = ConcatenatedDataset_len c"
proof -
  from assms have rd: "\<forall>ds\<in>set (datasets c). readable ds"
    and s: "\<forall>j\<in>set (iteration_order c). j < length (datasets c)"
    and cnt: "\<forall>j<length (datasets c).
          count_list (iteration_order c) j \<le> SizeBucketDataset_len (datasets c ! j)"
    unfolding iterable_def by blast+
  have d: "\<forall>j<length (datasets c).
      replicate (length (datasets c)) 0 ! j + count_list (iteration_order c) j
        \<le> SizeBucketDataset_len (datasets c ! j)"
    using cnt by simp
  from pull_ok [OF rd _ _ s d, of "length (iteration_order c)"] obtain xs it' where
    p: "pull_examples c (length (iteration_order c))
          (iteration_order c, replicate (length (datasets c)) 0) = Inr (xs, it')"
    by auto
  from pull_length [OF p] p show ?thesis
    by (simp add: bucket_samples_def ConcatenatedDataset_len_def ConcatenatedDataset_iter_def)
qed

lemma init_iterable:
  assumes R: "permuting R" and rd: "\<forall>ds\<in>set dss. readable ds"
  shows "iterable (fst (ConcatenatedDataset_init R dss g))"
proof -
  let ?l = "extend_indices (map SizeBucketDataset_len dss)"
  let ?o = "fst (shuffle_with_seed R ?l (SeedInt 0) g)"
  have f: "fst (ConcatenatedDataset_init R dss g) = \<lparr> datasets = dss, iteration_order = ?o \<rparr>"
    by (simp add: ConcatenatedDataset_init_def Let_def split: prod.splits)
  have m: "mset ?o = mset ?l" by (rule mset_shuffle_with_seed [OF R])
  have s: "set ?o = set ?l" by (metis m set_mset_mset)
  have a: "\<forall>j\<in>set ?o. j < length dss"
    using set_extend_indices [of _ "map SizeBucketDataset_len dss"] by (simp add: s)
  have b: "\<forall>j<length dss. count_list ?o j \<le> SizeBucketDataset_len (dss ! j)"
    by (simp add: count_list_mset [OF m] count_extend_indices)
  show ?thesis
    unfolding iterable_def f using a b rd by simp
qed

lemma trim_iterable:
  assumes "iterable c" and t: "ConcatenatedDataset_make_divisible_by is_main n c = Inr (c', lg)"
  shows "iterable c'"
proof -
  note sh = trim_shape [OF t]
  have a: "set (iteration_order c') \<subseteq> set (iteration_order c)"
    by (simp add: sh(3) set_take_subset)
  have b: "count_list (iteration_order c') j \<le> count_list (iteration_order c) j" for j
    by (simp add: sh(3) count_list_take_le)
  show ?thesis
    using assms(1) a b unfolding iterable_def sh(2)
    by (meson le_trans subsetD)
qed

lemma slices_ok:
  assumes bs: "\<forall>i<length (buckets self). \<exists>it.
       pull_examples (buckets self ! i) (ConcatenatedDataset_len (buckets self ! i))
         (ConcatenatedDataset_iter (buckets self ! i)) = Inr (S i, it)"
  shows "length its = length (buckets self) \<Longrightarrow>
    \<forall>i\<in>set rest. i < length (buckets self) \<Longrightarrow>
    \<forall>i<length (buckets self).
       global_batch_size self * (count_list seen i + count_list rest i)
         \<le> ConcatenatedDataset_len (buckets self ! i) \<Longrightarrow>
    \<forall>i<length (buckets self).
       pull_examples (buckets self ! i) (global_batch_size self * count_list seen i)
         (ConcatenatedDataset_iter (buckets self ! i))
       = Inr (take (global_batch_size self * count_list seen i) (S i), its ! i) \<Longrightarrow>
    \<exists>batches. Dataset_slices self rest its = Inr batches \<and> length batches = length rest \<and>
       (\<forall>k<length rest. batches ! k =
           rank_slice self (collate (take (global_batch_size self)
             (drop (global_batch_size self * count_list (seen @ take k rest) (rest ! k))
                (S (rest ! k))))))"
proof (induction rest arbitrary: seen its)
  case Nil
  then show ?case by simp
next
  case (Cons i rest)
  define n where "n = global_batch_size self"
  define c where "c = buckets self ! i"
  define m where "m = count_list seen i"
  define L where "L = ConcatenatedDataset_len c"
  from Cons.prems(2) have i: "i < length (buckets self)" by simp
  from Cons.prems(3) i have "n * (count_list seen i + count_list (i # rest) i) \<le> L"
    unfolding n_def L_def c_def by blast
  then have le: "n * m + n \<le> L" by (simp add: m_def algebra_simps)
  from bs i obtain it where full: "pull_examples c L (ConcatenatedDataset_iter c) = Inr (S i, it)"
    unfolding L_def c_def by blast
  from le have "L = (n * m + n) + (L - (n * m + n))" by simp
  with full have "pull_examples c ((n * m + n) + (L - (n * m + n))) (ConcatenatedDataset_iter c) = Inr (S i, it)"
    by simp
  from pull_split [OF this] obtain it1 where
    p1: "pull_examples c (n * m + n) (ConcatenatedDataset_iter c) = Inr (take (n * m + n) (S i), it1)"
    by blast
  from pull_split [OF p1] obtain it0 where
    p0: "pull_examples c (n * m) (ConcatenatedDataset_iter c) = Inr (take (n * m) (take (n * m + n) (S i)), it0)"
    and p2: "pull_examples c n it0 = Inr (drop (n * m) (take (n * m + n) (S i)), it1)"
    by blast
  from Cons.prems(4) i have
    "pull_examples c (n * m) (ConcatenatedDataset_iter c) = Inr (take (n * m) (S i), its ! i)"
    unfolding n_def m_def c_def by blast
  with p0 have it0: "it0 = its ! i" by simp
  have dt: "drop (n * m) (take (n * m + n) (S i)) = take n (drop (n * m) (S i))"
    by (simp add: drop_take)
  have step: "pull_examples c n (its ! i) = Inr (take n (drop (n * m) (S i)), it1)"
    using p2 by (simp add: it0 dt)
  have a: "length (its[i := it1]) = length (buckets self)"
    using Cons.prems(1) by simp
  have b: "\<forall>j\<in>set rest. j < length (buckets self)"
    using Cons.prems(2) by simp
  have c3: "\<forall>j<length (buckets self).
       global_batch_size self * (count_list (seen @ [i]) j + count_list rest j)
         \<le> ConcatenatedDataset_len (buckets self ! j)"
  proof (intro allI impI)
    fix j assume j: "j < length (buckets self)"
    have "count_list (seen @ [i]) j + count_list rest j = count_list seen j + count_list (i # rest) j"
      by simp
    with Cons.prems(3) j show "global_batch_size self * (count_list (seen @ [i]) j + count_list rest j)
         \<le> ConcatenatedDataset_len (buckets self ! j)"
      by (metis (no_types))
  qed
  have d: "\<forall>j<length (buckets self).
       pull_examples (buckets self ! j) (global_batch_size self * count_list (seen @ [i]) j)
         (ConcatenatedDataset_iter (buckets self ! j))
       = Inr (take (global_batch_size self * count_list (seen @ [i]) j) (S j), (its[i := it1]) ! j)"
  proof (intro allI impI)
    fix j assume j: "j < length (buckets self)"
    show "pull_examples (buckets self ! j) (global_batch_size self * count_list (seen @ [i]) j)
         (ConcatenatedDataset_iter (buckets self ! j))
       = Inr (take (global_batch_size self * count_list (seen @ [i]) j) (S j), (its[i := it1]) ! j)"
    proof (cases "j = i")
      case True
      have "global_batch_size self * count_list (seen @ [i]) i = n * m + n"
        by (simp add: n_def m_def)
      then show ?thesis
        using p1 i Cons.prems(1) by (simp add: True c_def)
    next
      case False
      then show ?thesis
        using Cons.prems(4) j by simp
    qed
  qed
  from Cons.IH [OF a b c3 d] obtain batches where
    r: "Dataset_slices self rest (its[i := it1]) = Inr batches" and
    l: "length batches = length rest" and
    e: "\<forall>k<length rest. batches ! k =
           rank_slice self (collate (take (global_batch_size self)
             (drop (global_batch_size self * count_list ((seen @ [i]) @ take k rest) (rest ! k))
                (S (rest ! k)))))"
    by blast
  let ?b = "rank_slice self (collate (take n (drop (n * m) (S i))))"
  have res: "Dataset_slices self (i # rest) its = Inr (?b # batches)"
    using i Cons.prems(1) step r by (simp add: c_def n_def)
  have nth: "\<forall>k<length (i # rest). (?b # batches) ! k =
           rank_slice self (collate (take (global_batch_size self)
             (drop (global_batch_size self * count_list (seen @ take k (i # rest)) ((i # rest) ! k))
                (S ((i # rest) ! k)))))"
  proof (intro allI impI)
    fix k assume k: "k < length (i # rest)"
    show "(?b # batches) ! k =
           rank_slice self (collate (take (global_batch_size self)
             (drop (global_batch_size self * count_list (seen @ take k (i # rest)) ((i # rest) ! k))
                (S ((i # rest) ! k)))))"
    proof (cases k)
      case 0
      then show ?thesis by (simp add: n_def m_def)
    next
      case (Suc k')
      with k have "k' < length rest" by simp
      with e show ?thesis by (simp add: Suc)
    qed
  qed
  from res l nth show ?case by (intro exI [of _ "?b # batches"] conjI) simp_all
qed

lemma getitem_nonempty: "SizeBucketDataset_getitem ds i = Inr x \<Longrightarrow> x \<noteq> []"
  by (auto simp: SizeBucketDataset_getitem_def split: option.splits sum.splits)

lemma next_nonempty: "ConcatenatedDataset_next c it = Inr (x, it') \<Longrightarrow> x \<noteq> []"
  by (auto simp: ConcatenatedDataset_next_def SizeBucketDataset_next_def
      dest: getitem_nonempty split: list.splits if_splits sum.splits)

lemma pull_nonempty: "pull_examples c n it = Inr (xs, it') \<Longrightarrow> [] \<notin> set xs"
proof (induction n arbitrary: it xs)
  case 0
  then show ?case by simp
next
  case (Suc n)
  then obtain x it1 ys where a: "ConcatenatedDataset_next c it = Inr (x, it1)"
    and b: "pull_examples c n it1 = Inr (ys, it')" and xs: "xs = x # ys"
    by (auto split: sum.splits prod.splits)
  from next_nonempty [OF a] Suc.IH [OF b] show ?case by (auto simp: xs)
qed

lemma collate_shape:
  assumes "xs \<noteq> []" and "[] \<notin> set xs"
  shows "collate xs \<noteq> []" and "\<forall>t\<in>set (collate xs). length t = length xs"
proof -
  have "min_list (map length xs) \<in> set (map length xs)"
    using assms(1) by (simp add: min_list_Min)
  then obtain x where "x \<in> set xs" "min_list (map length xs) = length x" by auto
  with assms(2) have "0 < min_list (map length xs)" by auto
  then show "collate xs \<noteq> []" using assms(1) by (simp add: collate_def)
  show "\<forall>t\<in>set (collate xs). length t = length xs"
    by (auto simp: collate_def)
qed

lemma slice_length:
  assumes "rank < world_size" and "length t = world_size * n"
  shows "length (take n (drop (rank * n) t)) = (n::nat)"
proof -
  from assms(1) have "Suc rank \<le> world_size" by simp
  then have "Suc rank * n \<le> world_size * n" by (rule mult_le_mono1)
  then show ?thesis using assms(2) by simp
qed

lemma post_init_shape:
  assumes "post_init R is_main rank world_size b g self g1 = Inr (self', lg, g2)"
  shows "\<exists>trimmed.
      mapM (ConcatenatedDataset_make_divisible_by is_main (world_size * (b * g))) (buckets self) = Inr trimmed \<and>
      buckets self' = map fst trimmed \<and>
      selection_order self' =
        fst (shuffle_with_seed R
               (extend_indices (map (\<lambda>c. ConcatenatedDataset_len c div (world_size * (b * g))) (map fst trimmed)))
               (SeedInt 0) g1)"
    and "global_batch_size self' = world_size * (b * g)"
    and "batch_size self' = b * g"
    and "data_parallel_rank self' = rank"
    and "post_init_called self'"
  using assms
  by (auto simp: post_init_def Dataset_make_divisible_by_def Let_def split: sum.splits prod.splits)

lemma count_take_lt:
  assumes "k < length xs"
  shows "count_list (take k xs) (xs ! k) < count_list xs (xs ! k)"
proof -
  have "xs = take k xs @ xs ! k # drop (Suc k) xs"
    using assms by (rule id_take_nth_drop)
  then have "count_list xs (xs ! k) =
      count_list (take k xs) (xs ! k) + count_list (xs ! k # drop (Suc k) xs) (xs ! k)"
    by (metis count_list_append)
  then show ?thesis by simp
qed

lemma trimmed_bucket:
  assumes it: "iterable c"
    and t: "ConcatenatedDataset_make_divisible_by is_main n c = Inr t"
  shows "n \<noteq> 0" and "iterable (fst t)"
    and "ConcatenatedDataset_len (fst t) = (ConcatenatedDataset_len c div n) * n"
    and "ConcatenatedDataset_len (fst t) div n = ConcatenatedDataset_len c div n"
proof -
  obtain c' lg where tt: "t = (c', lg)" by (cases t)
  note sh = trim_shape [OF t [unfolded tt]]
  show n: "n \<noteq> 0" by (rule sh(1))
  show "iterable (fst t)" using trim_iterable [OF it t [unfolded tt]] by (simp add: tt)
  have "(ConcatenatedDataset_len c div n) * n \<le> ConcatenatedDataset_len c" by simp
  then show l: "ConcatenatedDataset_len (fst t) = (ConcatenatedDataset_len c div n) * n"
    by (simp add: tt sh(3) ConcatenatedDataset_len_def)
  show "ConcatenatedDataset_len (fst t) div n = ConcatenatedDataset_len c div n"
    using n by (simp add: l)
qed

lemma bucket_samples_pull:
  assumes "bucket_samples c = Inr S"
  shows "\<exists>it. pull_examples c (ConcatenatedDataset_len c) (ConcatenatedDataset_iter c) = Inr (S, it)"
  using assms by (auto simp: bucket_samples_def split: sum.splits prod.splits)

lemma readable_demo_cached: "readable (demo_cached n)"
  by (simp add: readable_def demo_cached_def demo_bucket_dataset_def demo_rows_def
      SizeBucketDataset_len_def SizeBucketDataset_getitem_def column_item_def)

lemma demo_loaded_built:
  assumes "\<forall>dss\<in>set dsss. \<forall>ds\<in>set dss. readable ds"
  shows "\<forall>c\<in>set (buckets (demo_loaded dsss)). \<exists>dss g0.
           c = fst (ConcatenatedDataset_init rot_random dss g0) \<and> (\<forall>ds\<in>set dss. readable ds)"
proof
  fix c assume "c \<in> set (buckets (demo_loaded dsss))"
  then obtain dss where d: "dss \<in> set dsss" and c: "c = fst (ConcatenatedDataset_init rot_random dss 0)"
    by (auto simp: demo_loaded_def)
  from assms d have "\<forall>ds\<in>set dss. readable ds" by blast
  with c show "\<exists>dss g0. c = fst (ConcatenatedDataset_init rot_random dss g0) \<and> (\<forall>ds\<in>set dss. readable ds)"
    by blast
qed

text \<open>
  Claim C4, as the code has it. Take a dataset whose buckets were each built by the
  constructor of \<^verbatim>\<open>ConcatenatedDataset\<close> from readable bucket datasets (every index
  below \<^verbatim>\<open>len\<close> can be read: the caches are populated and no cached row was
  dropped), a generator whose shuffles are permutations, and a call
  \<^verbatim>\<open>post_init(rank, world_size, b, g)\<close> that returns, with \<open>rank < world_size\<close>. Then
  \<^verbatim>\<open>global_batch_size\<close> is \<open>world_size * (b * g)\<close>; the selection order is the seed-0
  shuffle of the list that names bucket \<open>i\<close> exactly \<open>len(bucket_i) div global_batch_size\<close>
  times, and bucket \<open>i\<close> occurs in it that often; iteration returns, with exactly one
  batch for each entry of the selection order; the \<open>k\<close>-th batch is collated from
  exactly \<open>global_batch_size\<close> consecutive samples of the selected bucket, those that follow
  the samples its earlier selections pulled; and the rank-local slice is the rows from
  \<open>rank * (b * g)\<close> on, it has at least one tensor and every tensor of it has leading
  dimension exactly \<open>b * g\<close>.
\<close>

theorem iteration_yields_rank_slices:
  assumes R: "permuting R"
    and B: "\<forall>c\<in>set (buckets self). \<exists>dss g0.
              c = fst (ConcatenatedDataset_init R dss g0) \<and> (\<forall>ds\<in>set dss. readable ds)"
    and P: "post_init R is_main rank world_size b g self g1 = Inr (self', lg, g2)"
    and rk: "rank < world_size"
  shows "global_batch_size self' = world_size * (b * g) \<and>
    selection_order self' =
      fst (shuffle_with_seed R
             (extend_indices
                (map (\<lambda>c. ConcatenatedDataset_len c div (world_size * (b * g))) (buckets self)))
             (SeedInt 0) g1) \<and>
    (\<forall>i<length (buckets self).
        count_list (selection_order self') i =
          ConcatenatedDataset_len (buckets self ! i) div (world_size * (b * g))) \<and>
    (\<exists>batches.
        Dataset_rank_batches self' = Inr batches \<and>
        length batches = length (selection_order self') \<and>
        (\<forall>k<length batches. \<exists>S pulled.
            bucket_samples (buckets self' ! (selection_order self' ! k)) = Inr S \<and>
            pulled = take (world_size * (b * g))
                       (drop (world_size * (b * g) *
                                count_list (take k (selection_order self')) (selection_order self' ! k)) S) \<and>
            length pulled = world_size * (b * g) \<and>
            batches ! k = map (\<lambda>x. take (b * g) (drop (rank * (b * g)) x)) (collate pulled) \<and>
            batches ! k \<noteq> [] \<and>
            (\<forall>t\<in>set (batches ! k). length t = b * g)))"
proof -
  define n where "n = world_size * (b * g)"
  define order where "order = selection_order self'"
  define counts where "counts = map (\<lambda>c. ConcatenatedDataset_len c div n) (buckets self)"
  from post_init_shape(1) [OF P] obtain trimmed where
    tm: "mapM (ConcatenatedDataset_make_divisible_by is_main n) (buckets self) = Inr trimmed" and
    bs': "buckets self' = map fst trimmed" and
    so: "order = fst (shuffle_with_seed R
               (extend_indices (map (\<lambda>c. ConcatenatedDataset_len c div n) (map fst trimmed)))
               (SeedInt 0) g1)"
    unfolding n_def order_def by blast
  note f = post_init_shape(2-5) [OF P, folded n_def]
  from mapM_nth [OF tm] have
    lt: "length trimmed = length (buckets self)" and
    ti: "\<forall>i<length (buckets self).
           ConcatenatedDataset_make_divisible_by is_main n (buckets self ! i) = Inr (trimmed ! i)"
    by blast+
  have lb: "length (buckets self') = length (buckets self)" by (simp add: bs' lt)
  have it: "iterable (buckets self ! i)" if "i < length (buckets self)" for i
  proof -
    from that have "buckets self ! i \<in> set (buckets self)" by simp
    with B obtain dss g0 where "buckets self ! i = fst (ConcatenatedDataset_init R dss g0)"
      "\<forall>ds\<in>set dss. readable ds" by blast
    with init_iterable [OF R, of dss g0] show ?thesis by simp
  qed
  have tb: "n \<noteq> 0 \<and> iterable (buckets self' ! i) \<and>
            ConcatenatedDataset_len (buckets self' ! i) = (ConcatenatedDataset_len (buckets self ! i) div n) * n \<and>
            ConcatenatedDataset_len (buckets self' ! i) div n = ConcatenatedDataset_len (buckets self ! i) div n"
    if "i < length (buckets self)" for i
  proof -
    from ti that have t: "ConcatenatedDataset_make_divisible_by is_main n (buckets self ! i) = Inr (trimmed ! i)"
      by blast
    have e: "buckets self' ! i = fst (trimmed ! i)" using that by (simp add: bs' lt)
    from trimmed_bucket [OF it [OF that] t] show ?thesis by (simp add: e)
  qed
  have ce: "map (\<lambda>c. ConcatenatedDataset_len c div n) (map fst trimmed) = counts"
    unfolding counts_def bs' [symmetric]
    by (rule nth_equalityI) (simp_all add: lb tb)
  have so': "order = fst (shuffle_with_seed R (extend_indices counts) (SeedInt 0) g1)"
    unfolding so ce ..
  have ms: "mset order = mset (extend_indices counts)"
    unfolding so' by (rule mset_shuffle_with_seed [OF R])
  have lc: "length counts = length (buckets self)" by (simp add: counts_def)
  have cnt: "count_list order i = ConcatenatedDataset_len (buckets self ! i) div n"
    if "i < length (buckets self)" for i
    using that by (simp add: count_list_mset [OF ms] count_extend_indices lc) (simp add: counts_def)
  have "set order = set (extend_indices counts)" by (metis ms set_mset_mset)
  then have inb: "\<forall>i\<in>set order. i < length (buckets self')"
    using set_extend_indices [of _ counts] by (simp add: lc lb)
  define S where "S = (\<lambda>i. projr (bucket_samples (buckets self' ! i)))"
  have Si: "bucket_samples (buckets self' ! i) = Inr (S i) \<and>
            length (S i) = (ConcatenatedDataset_len (buckets self ! i) div n) * n"
    if "i < length (buckets self)" for i
  proof -
    from tb [OF that] have "iterable (buckets self' ! i)" by blast
    from bucket_samples_ok [OF this] tb [OF that] show ?thesis by (auto simp: S_def)
  qed
  have a1: "\<forall>i<length (buckets self'). \<exists>it.
       pull_examples (buckets self' ! i) (ConcatenatedDataset_len (buckets self' ! i))
         (ConcatenatedDataset_iter (buckets self' ! i)) = Inr (S i, it)"
    using Si bucket_samples_pull by (simp add: lb) blast
  have a2: "length (map ConcatenatedDataset_iter (buckets self')) = length (buckets self')" by simp
  have a3: "\<forall>i<length (buckets self').
       global_batch_size self' * (count_list [] i + count_list order i)
         \<le> ConcatenatedDataset_len (buckets self' ! i)"
    using tb cnt by (simp add: lb f(1) mult.commute)
  have a4: "\<forall>i<length (buckets self').
       pull_examples (buckets self' ! i) (global_batch_size self' * count_list [] i)
         (ConcatenatedDataset_iter (buckets self' ! i))
       = Inr (take (global_batch_size self' * count_list [] i) (S i),
              map ConcatenatedDataset_iter (buckets self') ! i)"
    by simp
  from slices_ok [where self = self' and S = S and seen = "[]", OF a1 a2 inb a3 a4]
  obtain batches where
    r: "Dataset_slices self' order (map ConcatenatedDataset_iter (buckets self')) = Inr batches" and
    l: "length batches = length order" and
    e: "\<forall>k<length order. batches ! k =
           rank_slice self' (collate (take n (drop (n * count_list (take k order) (order ! k)) (S (order ! k)))))"
    by (auto simp: f(1))
  have rb: "Dataset_rank_batches self' = Inr batches"
    using r f(4) by (simp add: Dataset_rank_batches_def order_def)
  have each: "\<exists>S' pulled.
            bucket_samples (buckets self' ! (order ! k)) = Inr S' \<and>
            pulled = take n (drop (n * count_list (take k order) (order ! k)) S') \<and>
            length pulled = n \<and>
            batches ! k = map (\<lambda>x. take (b * g) (drop (rank * (b * g)) x)) (collate pulled) \<and>
            batches ! k \<noteq> [] \<and>
            (\<forall>t\<in>set (batches ! k). length t = b * g)"
    if k: "k < length order" for k
  proof -
    define i where "i = order ! k"
    define pulled where "pulled = take n (drop (n * count_list (take k order) i) (S i))"
    from k inb have i: "i < length (buckets self)" by (simp add: i_def lb)
    note s = Si [OF i]
    from tb [OF i] have n0: "0 < n" by simp
    from count_take_lt [OF k] have "Suc (count_list (take k order) i) \<le> count_list order i"
      by (simp add: i_def)
    then have "Suc (count_list (take k order) i) \<le> ConcatenatedDataset_len (buckets self ! i) div n"
      by (simp add: cnt [OF i])
    then have "Suc (count_list (take k order) i) * n \<le> (ConcatenatedDataset_len (buckets self ! i) div n) * n"
      by (rule mult_le_mono1)
    then have "n * count_list (take k order) i + n \<le> length (S i)"
      by (simp add: s mult.commute)
    then have lp: "length pulled = n" by (simp add: pulled_def)
    from s obtain it' where
      "pull_examples (buckets self' ! i) (ConcatenatedDataset_len (buckets self' ! i))
         (ConcatenatedDataset_iter (buckets self' ! i)) = Inr (S i, it')"
      using bucket_samples_pull by blast
    from pull_nonempty [OF this] have "[] \<notin> set (S i)" .
    moreover have "set pulled \<subseteq> set (S i)"
      unfolding pulled_def by (meson set_take_subset set_drop_subset subset_trans)
    ultimately have ne: "[] \<notin> set pulled" by blast
    from lp n0 have pn: "pulled \<noteq> []" by auto
    note cs = collate_shape [OF pn ne]
    from e k have bk: "batches ! k = map (\<lambda>x. take (b * g) (drop (rank * (b * g)) x)) (collate pulled)"
      by (simp add: rank_slice_def Let_def f(2,3) pulled_def i_def)
    have b1: "batches ! k \<noteq> []" using cs(1) by (simp add: bk)
    have b2: "\<forall>t\<in>set (batches ! k). length t = b * g"
    proof
      fix t assume "t \<in> set (batches ! k)"
      then obtain x where x: "x \<in> set (collate pulled)" and t: "t = take (b * g) (drop (rank * (b * g)) x)"
        by (auto simp: bk)
      from cs(2) x lp have "length x = world_size * (b * g)" by (simp add: n_def)
      from slice_length [OF rk this] show "length t = b * g" by (simp add: t)
    qed
    from s lp bk b1 b2 show ?thesis
      unfolding pulled_def i_def by blast
  qed
  have c1: "global_batch_size self' = world_size * (b * g)" using f(1) by (simp add: n_def)
  have c2: "selection_order self' =
      fst (shuffle_with_seed R
             (extend_indices
                (map (\<lambda>c. ConcatenatedDataset_len c div (world_size * (b * g))) (buckets self)))
             (SeedInt 0) g1)"
    using so' by (simp add: order_def counts_def n_def)
  have c3: "\<forall>i<length (buckets self).
        count_list (selection_order self') i =
          ConcatenatedDataset_len (buckets self ! i) div (world_size * (b * g))"
    using cnt by (simp add: order_def n_def)
  have c4: "\<exists>batches.
        Dataset_rank_batches self' = Inr batches \<and>
        length batches = length (selection_order self') \<and>
        (\<forall>k<length batches. \<exists>S pulled.
            bucket_samples (buckets self' ! (selection_order self' ! k)) = Inr S \<and>
            pulled = take (world_size * (b * g))
                       (drop (world_size * (b * g) *
                                count_list (take k (selection_order self')) (selection_order self' ! k)) S) \<and>
            length pulled = world_size * (b * g) \<and>
            batches ! k = map (\<lambda>x. take (b * g) (drop (rank * (b * g)) x)) (collate pulled) \<and>
            batches ! k \<noteq> [] \<and>
            (\<forall>t\<in>set (batches ! k). length t = b * g))"
    using rb l each unfolding order_def n_def by (intro exI [of _ batches] conjI) simp_all
  from c1 c2 c3 c4 show ?thesis by (intro conjI)
qed

theorem iteration_yields_rank_slices_witness:
  "permuting rot_random \<and> readable (demo_cached 5) \<and> readable (demo_cached 2) \<and>
   readable (demo_cached 3) \<and> (1::nat) < 2 \<and>
   (\<exists>self'.
      post_init rot_random True 1 2 1 1
        (demo_loaded [[demo_cached 5, demo_cached 2], [demo_cached 3]]) 3 = Inr (self', [], 3) \<and>
      global_batch_size self' = 2 \<and>
      selection_order self' = [0, 0, 1, 0] \<and>
      Dataset_rank_batches self' =
        Inr [[[101], [201]], [[103], [203]], [[101], [201]], [[101], [201]]] \<and>
      (\<exists>batches. Dataset_rank_batches self' = Inr batches \<and>
                 length batches = length (selection_order self') \<and>
                 (\<forall>t\<in>set (batches ! 1). length t = 1)))"
proof -
  let ?D = "demo_loaded [[demo_cached 5, demo_cached 2], [demo_cached 3]]"
  have "(case post_init rot_random True 1 2 1 1 ?D 3 of
      Inl e \<Rightarrow> False
    | Inr (s, lg, g2) \<Rightarrow>
        lg = [] \<and> g2 = 3 \<and> selection_order s = [0, 0, 1, 0] \<and>
        Dataset_rank_batches s =
          Inr [[[101], [201]], [[103], [203]], [[101], [201]], [[101], [201]]])"
    by code_simp
  then obtain s where
    P: "post_init rot_random True 1 2 1 1 ?D 3 = Inr (s, [], 3)" and
    so: "selection_order s = [0, 0, 1, 0]" and
    rb: "Dataset_rank_batches s =
          Inr [[[101], [201]], [[103], [203]], [[101], [201]], [[101], [201]]]"
    by (auto split: sum.splits)
  have B: "\<forall>c\<in>set (buckets ?D). \<exists>dss g0.
           c = fst (ConcatenatedDataset_init rot_random dss g0) \<and> (\<forall>ds\<in>set dss. readable ds)"
    by (rule demo_loaded_built) (simp add: readable_demo_cached)
  have rk: "(1::nat) < 2" by simp
  note t = iteration_yields_rank_slices [OF permuting_rot_random B P rk]
  from t have g: "global_batch_size s = 2" by simp
  from t [THEN conjunct2, THEN conjunct2, THEN conjunct2] obtain batches where
    b1: "Dataset_rank_batches s = Inr batches" and
    b2: "length batches = length (selection_order s)" and
    b3: "\<forall>k<length batches. \<exists>S pulled.
            bucket_samples (buckets s ! (selection_order s ! k)) = Inr S \<and>
            pulled = take (2 * (1 * 1))
                       (drop (2 * (1 * 1) *
                                count_list (take k (selection_order s)) (selection_order s ! k)) S) \<and>
            length pulled = 2 * (1 * 1) \<and>
            batches ! k = map (\<lambda>x. take (1 * 1) (drop (1 * (1 * 1)) x)) (collate pulled) \<and>
            batches ! k \<noteq> [] \<and>
            (\<forall>t\<in>set (batches ! k). length t = 1 * 1)"
    by blast
  from b2 so have "1 < length batches" by simp
  with b3 have b4: "\<forall>t\<in>set (batches ! 1). length t = 1" by fastforce
  from b1 b2 b4 have e: "\<exists>batches. Dataset_rank_batches s = Inr batches \<and>
                 length batches = length (selection_order s) \<and>
                 (\<forall>t\<in>set (batches ! 1). length t = 1)" by blast
  have r: "readable (demo_cached 5)" "readable (demo_cached 2)" "readable (demo_cached 3)"
    by (rule readable_demo_cached)+
  from P g so rb e have "\<exists>self'.
      post_init rot_random True 1 2 1 1 ?D 3 = Inr (self', [], 3) \<and>
      global_batch_size self' = 2 \<and>
      selection_order self' = [0, 0, 1, 0] \<and>
      Dataset_rank_batches self' =
        Inr [[[101], [201]], [[103], [203]], [[101], [201]], [[101], [201]]] \<and>
      (\<exists>batches. Dataset_rank_batches self' = Inr batches \<and>
                 length batches = length (selection_order self') \<and>
                 (\<forall>t\<in>set (batches ! 1). length t = 1))"
    by (intro exI [of _ s] conjI)
  with permuting_rot_random r rk show ?thesis by (intro conjI)
qed

text \<open>
  The claim as the specification states it, for every dataset on which \<^verbatim>\<open>post_init\<close>
  has been called, fails twice. A bucket dataset of two files of which one image cannot
  be opened keeps the length 2 while its latent cache has one row: \<^verbatim>\<open>post_init\<close>
  builds a selection order of two entries and iteration raises \<^verbatim>\<open>IndexError\<close>
  instead of yielding two batches. And at rank 2 of a world of size 2 every slice of every
  batch has leading dimension 0, not \<open>b * g = 1\<close>.
\<close>

theorem iteration_fails_without_its_preconditions:
  "(\<exists>self'.
      post_init rot_random True 0 1 1 1
        (demo_loaded [[fst (cache_latents demo_hf demo_collaborators (demo_bucket_dataset 2)
                              fresh_process)]]) 3 = Inr (self', [], 3) \<and>
      length (selection_order self') = 2 \<and>
      Dataset_rank_batches self' = Inl IndexError) \<and>
   (\<exists>self'.
      post_init rot_random True 2 2 1 1
        (demo_loaded [[demo_cached 5, demo_cached 2], [demo_cached 3]]) 3 = Inr (self', [], 3) \<and>
      length (selection_order self') = 4 \<and>
      Dataset_rank_batches self' = Inr [[[], []], [[], []], [[], []], [[], []]])"
proof -
  have "(case post_init rot_random True 0 1 1 1
           (demo_loaded [[fst (cache_latents demo_hf demo_collaborators (demo_bucket_dataset 2)
                                 fresh_process)]]) 3 of
      Inl e \<Rightarrow> False
    | Inr (s, lg, g2) \<Rightarrow>
        lg = [] \<and> g2 = 3 \<and> length (selection_order s) = 2 \<and>
        Dataset_rank_batches s = Inl IndexError)"
    by code_simp
  then have a: "\<exists>self'.
      post_init rot_random True 0 1 1 1
        (demo_loaded [[fst (cache_latents demo_hf demo_collaborators (demo_bucket_dataset 2)
                              fresh_process)]]) 3 = Inr (self', [], 3) \<and>
      length (selection_order self') = 2 \<and>
      Dataset_rank_batches self' = Inl IndexError"
    by (auto split: sum.splits)
  have "(case post_init rot_random True 2 2 1 1
           (demo_loaded [[demo_cached 5, demo_cached 2], [demo_cached 3]]) 3 of
      Inl e \<Rightarrow> False
    | Inr (s, lg, g2) \<Rightarrow>
        lg = [] \<and> g2 = 3 \<and> length (selection_order s) = 4 \<and>
        Dataset_rank_batches s = Inr [[[], []], [[], []], [[], []], [[], []]])"
    by code_simp
  then have b: "\<exists>self'.
      post_init rot_random True 2 2 1 1
        (demo_loaded [[demo_cached 5, demo_cached 2], [demo_cached 3]]) 3 = Inr (self', [], 3) \<and>
      length (selection_order self') = 4 \<and>
      Dataset_rank_batches self' = Inr [[[], []], [[], []], [[], []], [[], []]]"
    by (auto split: sum.splits)
  from a b show ?thesis by (rule conjI)
qed

subsection \<open>Two runs of the pipeline\<close>

text \<open>
  What can differ between two runs on the same configuration and files is the state of
  the global generator when the process starts, and the cache files the earlier run left.
  Caption processing without tag shuffling never consults the generator.
\<close>

lemma caption_fn_unshuffled:
  "process_caption_fn R rd False cp ex g =
     map_sum id (\<lambda>(row, _). (row, g)) (process_caption_fn R rd False cp ex g')"
  by (simp add: process_caption_fn_def split: option.splits)





















end
